theory Spec2Isabelle
  imports Main "HOL-Library.Sublist" "HOL-Library.AList"
begin

section \<open>Flutter Assets Generator: the generator and the manifest synchronizer\<close>

text \<open>
  The development embeds \<^verbatim>\<open>src/extension.ts\<close>. JavaScript strings are modelled as
  \<^typ>\<open>string\<close>; the model is exact on ASCII text (code units below 128). Two
  library behaviours on non-ASCII code units are outside the model: \<^verbatim>\<open>toUpperCase\<close>
  and \<^verbatim>\<open>toLowerCase\<close> act on the ASCII letters only, and \<^verbatim>\<open>trim\<close> strips the ASCII
  white space and line terminators only.
\<close>

subsection \<open>Characters and the string methods used by the source\<close>

definition isDigit :: "char \<Rightarrow> bool" where
  \<comment> \<open>the regular expression class \<^verbatim>\<open>\d\<close>\<close>
  "isDigit c = (48 \<le> (of_char c :: nat) \<and> (of_char c :: nat) \<le> 57)"

definition isLowerAZ :: "char \<Rightarrow> bool" where
  "isLowerAZ c = (97 \<le> (of_char c :: nat) \<and> (of_char c :: nat) \<le> 122)"

definition isUpperAZ :: "char \<Rightarrow> bool" where
  "isUpperAZ c = (65 \<le> (of_char c :: nat) \<and> (of_char c :: nat) \<le> 90)"

definition isAlnum :: "char \<Rightarrow> bool" where
  \<comment> \<open>the regular expression class \<^verbatim>\<open>[a-zA-Z0-9]\<close>\<close>
  "isAlnum c = (isLowerAZ c \<or> isUpperAZ c \<or> isDigit c)"

definition toUpperCaseChar :: "char \<Rightarrow> char" where
  "toUpperCaseChar c = (if isLowerAZ c then char_of (of_char c - 32 :: nat) else c)"

definition toLowerCaseChar :: "char \<Rightarrow> char" where
  "toLowerCaseChar c = (if isUpperAZ c then char_of (of_char c + 32 :: nat) else c)"

definition isLineTerminator :: "char \<Rightarrow> bool" where
  \<comment> \<open>the characters that \<^verbatim>\<open>.\<close> does not match: line feed and carriage return\<close>
  "isLineTerminator c = (c = CHR 0x0A \<or> c = CHR 0x0D)"

definition isDelim :: "char \<Rightarrow> bool" where
  \<comment> \<open>the regular expression class \<^verbatim>\<open>[-_]\<close>\<close>
  "isDelim c = (c = CHR ''-'' \<or> c = CHR ''_'')"

subsection \<open>Identifier derivation\<close>

text \<open>
  \<^verbatim>\<open>name.replace(/[-_]+(.)?/g, (_, c) => c ? c.toUpperCase() : '')\<close>: scanning from the
  left, a maximal run of delimiters together with the character after it (when there is
  one and it is not a line terminator) is replaced by that character in upper case; a run
  with no such character is replaced by the empty string; every other character is copied.
\<close>

function camelReplace :: "string \<Rightarrow> string" where
  "camelReplace [] = []"
| "camelReplace (c # cs) =
     (if isDelim c then
        (case dropWhile isDelim cs of
           [] \<Rightarrow> []
         | d # ds \<Rightarrow>
             if isLineTerminator d then d # camelReplace ds
             else toUpperCaseChar d # camelReplace ds)
      else c # camelReplace cs)"
  by pat_completeness auto
termination
proof (relation "measure length")
  fix c :: char and cs d ds
  assume "dropWhile isDelim cs = d # ds"
  then have "length (d # ds) \<le> length cs"
    using length_dropWhile_le [of isDelim cs] by simp
  then show "(ds, c # cs) \<in> measure length" by simp
  then show "(ds, c # cs) \<in> measure length" .
qed simp_all

definition dartKeywords :: "string list" where
  "dartKeywords = [''class'', ''switch'', ''return'', ''default'', ''break'', ''if'',
     ''else'', ''for'', ''var'', ''final'', ''const'']"

definition lowerFirst :: "string \<Rightarrow> string" where
  \<comment> \<open>\<^verbatim>\<open>s.charAt(0).toLowerCase() + s.slice(1)\<close>, guarded by \<^verbatim>\<open>s.length > 0\<close>\<close>
  "lowerFirst s = (case s of [] \<Rightarrow> [] | c # cs \<Rightarrow> toLowerCaseChar c # cs)"

definition startsWithDigit :: "string \<Rightarrow> bool" where
  \<comment> \<open>\<^verbatim>\<open>/^\d/.test(s)\<close>\<close>
  "startsWithDigit s = (case s of [] \<Rightarrow> False | c # _ \<Rightarrow> isDigit c)"

definition formatPropertyName :: "string \<Rightarrow> string" where
  "formatPropertyName name =
     (let camelCase = filter isAlnum (camelReplace name);
          camelCase = lowerFirst camelCase;
          camelCase = (if startsWithDigit camelCase then ''item'' @ camelCase else camelCase);
          camelCase = (if camelCase \<in> set dartKeywords then camelCase @ ''Asset'' else camelCase)
      in if camelCase = [] then ''unknown'' else camelCase)"

subsection \<open>More string methods\<close>

definition startsWith :: "string \<Rightarrow> string \<Rightarrow> bool" where
  "startsWith s p = (take (length p) s = p)"

definition endsWith :: "string \<Rightarrow> string \<Rightarrow> bool" where
  "endsWith s p = (length p \<le> length s \<and> drop (length s - length p) s = p)"

definition toLowerCase :: "string \<Rightarrow> string" where
  "toLowerCase s = map toLowerCaseChar s"

definition capitalize :: "string \<Rightarrow> string" where
  \<comment> \<open>\<^verbatim>\<open>s.charAt(0).toUpperCase() + s.slice(1)\<close>; the empty string stays empty\<close>
  "capitalize s = (case s of [] \<Rightarrow> [] | c # cs \<Rightarrow> toUpperCaseChar c # cs)"

definition forwardSlashes :: "string \<Rightarrow> string" where
  \<comment> \<open>\<^verbatim>\<open>s.replace(/\\/g, '/')\<close>\<close>
  "forwardSlashes s = map (\<lambda>c. if c = CHR 0x5C then CHR ''/'' else c) s"

definition isVariantName :: "string \<Rightarrow> bool" where
  \<comment> \<open>\<^verbatim>\<open>/^\d\.\dx$/.test(name)\<close>\<close>
  "isVariantName n =
     (case n of
        [a, b, c, d] \<Rightarrow> isDigit a \<and> b = CHR ''.'' \<and> isDigit c \<and> d = CHR ''x''
      | _ \<Rightarrow> False)"

text \<open>
  \<^verbatim>\<open>name.replace(/\.[^/.]+$/, "")\<close> removes the last dot and what follows it, when what
  follows is not empty and holds no slash. \<open>extensionTail\<close> reads the reversed name up
  to its first dot: it returns the number of characters to drop from the end.
\<close>

fun extensionTail :: "string \<Rightarrow> nat \<Rightarrow> nat option" where
  "extensionTail [] k = None"
| "extensionTail (c # cs) k =
     (if c = CHR ''.'' then (if k = 0 then None else Some (Suc k))
      else if c = CHR ''/'' then None
      else extensionTail cs (Suc k))"

definition stripExtension :: "string \<Rightarrow> string" where
  "stripExtension n =
     (case extensionTail (rev n) 0 of
        None \<Rightarrow> n
      | Some k \<Rightarrow> take (length n - k) n)"

subsection \<open>The asset tree\<close>

text \<open>
  One entry of \<^verbatim>\<open>fs.readdirSync(dir, { withFileTypes: true })\<close>: a regular file, a
  directory with its own listing, or an entry that is neither (\<^verbatim>\<open>isFile()\<close> and
  \<^verbatim>\<open>isDirectory()\<close> both false). The order of a listing is the order of enumeration.
\<close>

datatype entry = File string | Dir string "entry list" | Other string

fun dirent_name :: "entry \<Rightarrow> string" where
  "dirent_name (File n) = n"
| "dirent_name (Dir n cs) = n"
| "dirent_name (Other n) = n"

fun isFile :: "entry \<Rightarrow> bool" where
  "isFile (File n) = True"
| "isFile _ = False"

fun isDirectory :: "entry \<Rightarrow> bool" where
  "isDirectory (Dir n cs) = True"
| "isDirectory _ = False"

fun children :: "entry \<Rightarrow> entry list" where
  \<comment> \<open>the listing read by the recursive call on \<^verbatim>\<open>path.join(dirPath, dir.name)\<close>\<close>
  "children (Dir n cs) = cs"
| "children _ = []"

subsection \<open>The class generator\<close>

definition sq :: string where
  \<comment> \<open>a single quote\<close>
  "sq = [CHR 0x27]"

definition nestedClassNameOf :: "string \<Rightarrow> string \<Rightarrow> string" where
  "nestedClassNameOf className dirName = className @ capitalize dirName"

definition dirPropertyLine :: "string \<Rightarrow> string \<Rightarrow> string" where
  "dirPropertyLine className dirName =
     (let nestedPropName = formatPropertyName dirName;
          nestedClassName = nestedClassNameOf className dirName
      in ''  final '' @ nestedClassName @ '' '' @ nestedPropName @ '' = const '' @
         nestedClassName @ ''();\<newline>'')"

definition filePropertyLine :: "string \<Rightarrow> string \<Rightarrow> string" where
  "filePropertyLine relativePath fileName =
     (let propName = formatPropertyName (stripExtension fileName);
          forwardSlashPath = forwardSlashes relativePath;
          isSvg = endsWith (toLowerCase fileName) ''.svg'';
          comment = (if isSvg then '' // SVG File'' else [])
      in ''  final String '' @ propName @ '' = '' @ sq @ ''assets/'' @ forwardSlashPath @
         ''/'' @ fileName @ sq @ '';'' @ comment @ ''\<newline>'')"

function generateClassRecursively :: "entry list \<Rightarrow> string \<Rightarrow> string \<Rightarrow> string" where
  "generateClassRecursively items relativePath className =
     (let files = filter (\<lambda>item. isFile item \<and> \<not> startsWith (dirent_name item) ''.'') items;
          dirs = filter (\<lambda>item. isDirectory item \<and> \<not> isVariantName (dirent_name item)) items;
          classContent = ''class '' @ className @ '' {\<newline>'';
          classContent = classContent @ ''  const '' @ className @ ''();\<newline>\<newline>'';
          classContent = classContent @
            concat (map (\<lambda>dir. dirPropertyLine className (dirent_name dir)) dirs);
          nestedClassesContent =
            concat (map (\<lambda>dir. generateClassRecursively (children dir)
                          (relativePath @ ''/'' @ dirent_name dir)
                          (nestedClassNameOf className (dirent_name dir))) dirs);
          classContent = classContent @
            concat (map (\<lambda>file. filePropertyLine relativePath (dirent_name file)) files);
          classContent = classContent @ ''}\<newline>\<newline>''
      in classContent @ nestedClassesContent)"
  by pat_completeness auto
termination
proof (relation "measure (\<lambda>(items, relativePath, className). size_list size items)")
  show "wf (measure (\<lambda>(items, relativePath, className). size_list size items))"
    by simp
next
  fix items :: "entry list" and relativePath className :: string
    and files dirs :: "entry list" and dir :: entry
  assume "dirs = filter (\<lambda>item. isDirectory item \<and> \<not> isVariantName (dirent_name item)) items"
    and "dir \<in> set dirs"
  then have "dir \<in> set items" and isd: "isDirectory dir" by simp_all
  obtain n cs where d: "dir = Dir n cs"
    using isd isDirectory.elims(2) by blast
  have "size_list size cs < size_list size items"
    using \<open>dir \<in> set items\<close> unfolding d
    by (induction items) auto
  then show "((children dir, relativePath @ ''/'' @ dirent_name dir,
               nestedClassNameOf className (dirent_name dir)),
              items, relativePath, className)
             \<in> measure (\<lambda>(items, relativePath, className). size_list size items)"
    by (simp add: d)
qed

subsection \<open>The directories the manifest must list\<close>

function scanDirs :: "entry list \<Rightarrow> string \<Rightarrow> string list" where
  "scanDirs items relPath =
     (let forwardSlashPath = forwardSlashes relPath
      in (''- assets/'' @ forwardSlashPath @ ''/'') #
         concat (map (\<lambda>item. scanDirs (children item) (relPath @ ''/'' @ dirent_name item))
                   (filter (\<lambda>item. isDirectory item \<and> \<not> isVariantName (dirent_name item)) items)))"
  by pat_completeness auto
termination
proof (relation "measure (\<lambda>(items, relPath). size_list size items)")
  show "wf (measure (\<lambda>(items, relPath). size_list size items))"
    by simp
next
  fix items :: "entry list" and relPath forwardSlashPath :: string and item :: entry
  assume "item \<in> set (filter (\<lambda>item. isDirectory item \<and> \<not> isVariantName (dirent_name item)) items)"
  then have "item \<in> set items" and isd: "isDirectory item" by simp_all
  obtain n cs where d: "item = Dir n cs"
    using isd isDirectory.elims(2) by blast
  have "size_list size cs < size_list size items"
    using \<open>item \<in> set items\<close> unfolding d
    by (induction items) auto
  then show "((children item, relPath @ ''/'' @ dirent_name item), items, relPath)
             \<in> measure (\<lambda>(items, relPath). size_list size items)"
    by (simp add: d)
qed

definition requiredAssetsOf :: "entry list \<Rightarrow> string list" where
  \<comment> \<open>\<^verbatim>\<open>requiredAssets\<close> after the loop over \<^verbatim>\<open>rootDirs\<close>; the argument is the listing
      of the asset root\<close>
  "requiredAssetsOf assetsItems =
     concat (map (\<lambda>dir. scanDirs (children dir) (dirent_name dir)) (filter isDirectory assetsItems))"

subsection \<open>The output directory and the generation pass\<close>

text \<open>
  The output directory is a listing of names, each a regular file with its text or a
  subdirectory. \<^verbatim>\<open>fs.writeFileSync\<close> replaces the text of an existing file in place and
  puts a new file at the end of the listing; it raises on a directory.
  \<^verbatim>\<open>fs.unlinkSync\<close> removes a file and raises on a directory or a missing name. A raise
  carries the listing as it was at that moment: nothing is rolled back.
\<close>

datatype node = RegularFile string | Directory

datatype fs_error = EISDIR | ENOENT

type_synonym outdir = "(string \<times> node) list"

definition writeFileSync :: "outdir \<Rightarrow> string \<Rightarrow> string \<Rightarrow> (fs_error \<times> outdir) + outdir" where
  "writeFileSync out fileName content =
     (case map_of out fileName of
        Some Directory \<Rightarrow> Inl (EISDIR, out)
      | _ \<Rightarrow> Inr (AList.update fileName (RegularFile content) out))"

definition unlinkSync :: "outdir \<Rightarrow> string \<Rightarrow> (fs_error \<times> outdir) + outdir" where
  "unlinkSync out fileName =
     (case map_of out fileName of
        None \<Rightarrow> Inl (ENOENT, out)
      | Some Directory \<Rightarrow> Inl (EISDIR, out)
      | Some (RegularFile content) \<Rightarrow> Inr (AList.delete fileName out))"

definition baseNameOf :: "string \<Rightarrow> string" where
  \<comment> \<open>\<^verbatim>\<open>rootFolder.endsWith('s') ? rootFolder.slice(0, -1) : rootFolder\<close>\<close>
  "baseNameOf rootFolder = (if endsWith rootFolder ''s'' then butlast rootFolder else rootFolder)"

definition partFileNameOf :: "string \<Rightarrow> string" where
  "partFileNameOf rootFolder = baseNameOf rootFolder @ ''.dart''"

definition rootClassNameOf :: "string \<Rightarrow> string" where
  "rootClassNameOf rootFolder = ''_'' @ capitalize (baseNameOf rootFolder)"

definition partContentOf :: "entry \<Rightarrow> string" where
  \<comment> \<open>the text of one category file; the argument is the category directory\<close>
  "partContentOf dir =
     ''part of '' @ sq @ ''assets_app.dart'' @ sq @ '';\<newline>\<newline>'' @
     generateClassRecursively (children dir) (dirent_name dir) (rootClassNameOf (dirent_name dir))"

record gen_state =
  partsDecl :: string
  appAssetsBody :: string
  generatedFiles :: "string list"
  outDir :: outdir

fun categoryLoop :: "entry list \<Rightarrow> gen_state \<Rightarrow> (fs_error \<times> outdir) + gen_state" where
  \<comment> \<open>the loop \<^verbatim>\<open>for (const rootFolder of subdirs)\<close>\<close>
  "categoryLoop [] st = Inr st"
| "categoryLoop (dir # rest) st =
     (let rootFolder = dirent_name dir;
          partFileName = partFileNameOf rootFolder;
          rootClassName = rootClassNameOf rootFolder;
          propName = formatPropertyName rootFolder
      in case writeFileSync (outDir st) partFileName (partContentOf dir) of
           Inl e \<Rightarrow> Inl e
         | Inr out' \<Rightarrow>
             categoryLoop rest
               (st\<lparr>partsDecl := partsDecl st @ ''part '' @ sq @ partFileName @ sq @ '';\<newline>'',
                   appAssetsBody := appAssetsBody st @ ''  static const '' @ propName @ '' = '' @
                                      rootClassName @ ''();\<newline>'',
                   generatedFiles := generatedFiles st @ [partFileName],
                   outDir := out'\<rparr>))"

fun cleanupLoop :: "string list \<Rightarrow> string list \<Rightarrow> outdir \<Rightarrow> (fs_error \<times> outdir) + outdir" where
  \<comment> \<open>the loop \<^verbatim>\<open>for (const file of existingFiles)\<close>\<close>
  "cleanupLoop [] generated out = Inr out"
| "cleanupLoop (file # rest) generated out =
     (if file \<notin> set generated \<and> endsWith file ''.dart''
      then (case unlinkSync out file of
              Inl e \<Rightarrow> Inl e
            | Inr out' \<Rightarrow> cleanupLoop rest generated out')
      else cleanupLoop rest generated out)"

definition mainContentOf :: "gen_state \<Rightarrow> string" where
  "mainContentOf st =
     partsDecl st @ ''\<newline>'' @ ''class AssetsApp {\<newline>'' @ ''  AssetsApp._();\<newline>\<newline>'' @
     appAssetsBody st @ ''}\<newline>''"

definition generateAllAssetsClasses ::
  "entry list \<Rightarrow> outdir option \<Rightarrow> (fs_error \<times> outdir) + outdir" where
  \<comment> \<open>first argument: the listing of the asset root; second: the output directory,
      \<open>None\<close> when it does not exist yet (it is then created empty). The category
      directories are read through the listing, where the source reads each by its name.\<close>
  "generateAllAssetsClasses assetsItems outDirState =
     (let out0 = (case outDirState of None \<Rightarrow> [] | Some l \<Rightarrow> l);
          subdirs = filter isDirectory assetsItems
      in case categoryLoop subdirs
                \<lparr>partsDecl = [], appAssetsBody = [],
                 generatedFiles = [''assets_app.dart''], outDir = out0\<rparr> of
           Inl e \<Rightarrow> Inl e
         | Inr st \<Rightarrow>
             (case writeFileSync (outDir st) ''assets_app.dart'' (mainContentOf st) of
                Inl e \<Rightarrow> Inl e
              | Inr out1 \<Rightarrow> cleanupLoop (map fst out1) (generatedFiles st) out1))"

subsection \<open>The manifest synchronizer\<close>

definition isWhiteSpace :: "char \<Rightarrow> bool" where
  \<comment> \<open>what \<^verbatim>\<open>trim\<close> strips, among ASCII: tab, line feed, vertical tab, form feed,
      carriage return, space\<close>
  "isWhiteSpace c = ((9 \<le> (of_char c :: nat) \<and> (of_char c :: nat) \<le> 13) \<or> c = CHR '' '')"

definition trim :: "string \<Rightarrow> string" where
  "trim s = rev (dropWhile isWhiteSpace (rev (dropWhile isWhiteSpace s)))"

fun splitOn :: "char \<Rightarrow> string \<Rightarrow> string list" where
  \<comment> \<open>\<^verbatim>\<open>s.split(c)\<close> for a one-character separator: one more piece than separators\<close>
  "splitOn sep [] = [[]]"
| "splitOn sep (c # cs) =
     (if c = sep then [] # splitOn sep cs
      else (case splitOn sep cs of [] \<Rightarrow> [[c]] | l # ls \<Rightarrow> (c # l) # ls))"

fun joinWith :: "char \<Rightarrow> string list \<Rightarrow> string" where
  \<comment> \<open>\<^verbatim>\<open>lines.join(c)\<close>\<close>
  "joinWith sep [] = []"
| "joinWith sep [l] = l"
| "joinWith sep (l # ls) = l @ sep # joinWith sep ls"

fun findIndexFrom :: "(string \<Rightarrow> nat \<Rightarrow> bool) \<Rightarrow> nat \<Rightarrow> string list \<Rightarrow> nat option" where
  "findIndexFrom p i [] = None"
| "findIndexFrom p i (l # ls) = (if p l i then Some i else findIndexFrom p (Suc i) ls)"

definition findIndex :: "(string \<Rightarrow> nat \<Rightarrow> bool) \<Rightarrow> string list \<Rightarrow> nat option" where
  \<comment> \<open>\<^verbatim>\<open>lines.findIndex((l, i) => ...)\<close>; \<open>None\<close> is the result \<^verbatim>\<open>-1\<close>\<close>
  "findIndex p ls = findIndexFrom p 0 ls"

definition spliceInsert :: "string list \<Rightarrow> nat \<Rightarrow> string \<Rightarrow> string list" where
  \<comment> \<open>\<^verbatim>\<open>lines.splice(i, 0, x)\<close>: insertion before index \<open>i\<close>, at the end when \<open>i\<close> is
      beyond it\<close>
  "spliceInsert ls i x = take i ls @ x # drop i ls"

fun insertRequired ::
  "string list \<Rightarrow> nat \<Rightarrow> string list \<Rightarrow> string list \<Rightarrow> nat \<Rightarrow> string list" where
  \<comment> \<open>the loop over \<^verbatim>\<open>requiredAssets\<close>, with the state \<^verbatim>\<open>lines\<close>, \<^verbatim>\<open>addedCount\<close>\<close>
  "insertRequired existingEntries assetsIndex [] ls addedCount = ls"
| "insertRequired existingEntries assetsIndex (reqAsset # rest) ls addedCount =
     (if reqAsset \<notin> set existingEntries
      then insertRequired existingEntries assetsIndex rest
             (spliceInsert ls (assetsIndex + 1 + addedCount) (''    '' @ reqAsset)) (addedCount + 1)
      else insertRequired existingEntries assetsIndex rest ls addedCount)"

definition isPruneCandidate :: "string \<Rightarrow> bool" where
  \<comment> \<open>\<^verbatim>\<open>trimmed.startsWith('- assets/') && trimmed.split('/').length > 2\<close>\<close>
  "isPruneCandidate line =
     (let trimmed = trim line
      in startsWith trimmed ''- assets/'' \<and> length (splitOn CHR ''/'' trimmed) > 2)"

definition referencedPath :: "string \<Rightarrow> string" where
  \<comment> \<open>\<^verbatim>\<open>trimmed.replace(/^- /, '').replace(/['"]/g, '').trim()\<close>\<close>
  "referencedPath line =
     (let trimmed = trim line;
          s = (if startsWith trimmed ''- '' then drop 2 trimmed else trimmed);
          s = filter (\<lambda>c. c \<noteq> CHR 0x27 \<and> c \<noteq> CHR 0x22) s
      in trim s)"

definition keepLine :: "(string \<Rightarrow> bool) \<Rightarrow> string \<Rightarrow> bool" where
  \<comment> \<open>the predicate of the final \<^verbatim>\<open>lines.filter\<close>; \<open>existsRel p\<close> is
      \<^verbatim>\<open>fs.existsSync(path.join(rootPath, p))\<close>\<close>
  "keepLine existsRel line =
     (if isPruneCandidate line then existsRel (referencedPath line) else True)"

definition locateFlutter :: "string list \<Rightarrow> string list \<times> nat" where
  "locateFlutter ls =
     (case findIndex (\<lambda>l i. startsWith l ''flutter:'') ls of
        None \<Rightarrow> (let ls' = ls @ [[], ''flutter:'', ''  assets:''] in (ls', length ls' - 2))
      | Some i \<Rightarrow> (ls, i))"

definition locateAssets :: "string list \<Rightarrow> nat \<Rightarrow> string list \<times> nat" where
  "locateAssets ls flutterIndex =
     (case findIndex (\<lambda>l i. i > flutterIndex \<and> startsWith l ''  assets:'') ls of
        None \<Rightarrow> (spliceInsert ls (flutterIndex + 1) ''  assets:'', flutterIndex + 1)
      | Some i \<Rightarrow> (ls, i))"

definition syncLines :: "(string \<Rightarrow> bool) \<Rightarrow> string list \<Rightarrow> string list \<Rightarrow> string list" where
  \<comment> \<open>from \<^verbatim>\<open>content.split('\n')\<close> to \<^verbatim>\<open>newLines\<close>\<close>
  "syncLines existsRel requiredAssets ls0 =
     (let (ls1, flutterIndex) = locateFlutter ls0;
          (ls2, assetsIndex) = locateAssets ls1 flutterIndex;
          existingEntries = map trim ls2;
          ls3 = insertRequired existingEntries assetsIndex requiredAssets ls2 0
      in filter (keepLine existsRel) ls3)"

definition syncPubspecContent :: "(string \<Rightarrow> bool) \<Rightarrow> string list \<Rightarrow> string \<Rightarrow> string" where
  \<comment> \<open>the text written back to \<^verbatim>\<open>pubspec.yaml\<close>, from the text read\<close>
  "syncPubspecContent existsRel requiredAssets content =
     joinWith CHR 0x0A (syncLines existsRel requiredAssets (splitOn CHR 0x0A content))"

definition syncPubspecYaml ::
  "(string \<Rightarrow> bool) \<Rightarrow> entry list \<Rightarrow> string option \<Rightarrow> string option" where
  \<comment> \<open>the second argument is the listing of the asset root, the third the content of
      \<^verbatim>\<open>pubspec.yaml\<close> (\<open>None\<close> when the file does not exist: nothing is done)\<close>
  "syncPubspecYaml existsRel assetsItems pubspec =
     (case pubspec of
        None \<Rightarrow> None
      | Some content \<Rightarrow> Some (syncPubspecContent existsRel (requiredAssetsOf assetsItems) content))"

subsection \<open>Path existence on a project tree\<close>

text \<open>
  A concrete \<open>existsRel\<close>: the project folder is a listing, and a path relative to it is
  resolved as \<^verbatim>\<open>path.join\<close> and \<^verbatim>\<open>fs.existsSync\<close> do on POSIX. \<^verbatim>\<open>path.join\<close>
  normalises lexically: empty and \<^verbatim>\<open>.\<close> segments are dropped and \<^verbatim>\<open>..\<close> removes the
  segment before it. A path that climbs above the project folder leaves the tree, and the
  model reports it as absent. A path with a trailing slash exists only as a directory.
\<close>

fun normalizeSegments :: "string list \<Rightarrow> string list \<Rightarrow> string list option" where
  \<comment> \<open>second argument: the segments kept so far, innermost first\<close>
  "normalizeSegments [] acc = Some (rev acc)"
| "normalizeSegments (seg # segs) acc =
     (if seg = [] \<or> seg = ''.'' then normalizeSegments segs acc
      else if seg = ''..'' then
        (case acc of [] \<Rightarrow> None | _ # acc' \<Rightarrow> normalizeSegments segs acc')
      else normalizeSegments segs (seg # acc))"

fun findEntry :: "entry list \<Rightarrow> string \<Rightarrow> entry option" where
  "findEntry [] n = None"
| "findEntry (e # es) n = (if dirent_name e = n then Some e else findEntry es n)"

fun walk :: "entry list \<Rightarrow> string list \<Rightarrow> bool \<Rightarrow> bool" where
  \<comment> \<open>third argument: the last segment must be a directory\<close>
  "walk items [] mustBeDir = True"
| "walk items [seg] mustBeDir =
     (case findEntry items seg of
        None \<Rightarrow> False
      | Some e \<Rightarrow> \<not> mustBeDir \<or> isDirectory e)"
| "walk items (seg # segs) mustBeDir =
     (case findEntry items seg of
        Some (Dir n cs) \<Rightarrow> walk cs segs mustBeDir
      | _ \<Rightarrow> False)"

definition existsIn :: "entry list \<Rightarrow> string \<Rightarrow> bool" where
  "existsIn projectItems p =
     (case normalizeSegments (splitOn CHR ''/'' p) [] of
        None \<Rightarrow> False
      | Some segs \<Rightarrow> walk projectItems segs (endsWith p ''/''))"

subsection \<open>One sync pass and the coordinator\<close>

text \<open>
  The project as a pass sees it: the listing of the asset root, the text of
  \<^verbatim>\<open>pubspec.yaml\<close> and the output directory. The asset root is read, the other two are
  rewritten. The output directory is taken to lie outside the asset root.
\<close>

record project =
  assetsDir :: "entry list option"
  pubspec :: "string option"
  outputDir :: "outdir option"

definition syncPass :: "(string \<Rightarrow> bool) \<Rightarrow> entry list \<Rightarrow> project \<Rightarrow> (fs_error \<times> project) + project" where
  \<comment> \<open>the body of the \<^verbatim>\<open>try\<close> block of \<^verbatim>\<open>runFullSync\<close>: the manifest first, then the
      generated files\<close>
  "syncPass existsRel assetsItems p =
     (let p1 = p\<lparr>pubspec := syncPubspecYaml existsRel assetsItems (pubspec p)\<rparr>
      in case generateAllAssetsClasses assetsItems (outputDir p1) of
           Inl (e, out) \<Rightarrow> Inl (e, p1\<lparr>outputDir := Some out\<rparr>)
         | Inr out \<Rightarrow> Inr (p1\<lparr>outputDir := Some out\<rparr>))"

text \<open>
  The coordinator. The globals \<^verbatim>\<open>isSyncing\<close> and \<^verbatim>\<open>syncTimer\<close> are fields; pending
  timers are state: \<open>syncTimer\<close> holds the folder flag of the armed debounce callback
  (whether \<^verbatim>\<open>getWorkspaceFolder(uri)\<close> finds a folder), \<open>resetTimers\<close> counts the armed
  two-second callbacks. \<open>passesStarted\<close> counts the passes that reached the
  \<^verbatim>\<open>try\<close> block; it is not read by any handler. Each handler runs to
  completion before the next one starts, as the host runs them; the order in which
  timers and events arrive is left open.
\<close>

record world =
  autoSync :: bool
  isSyncing :: bool
  syncTimer :: "bool option"
  resetTimers :: nat
  proj :: project
  passesStarted :: nat

datatype event =
    FileEvent bool
  | DebounceFires
  | ResetFires
  | ForceGenerate bool
  | ToggleAutoSync
  | ExternalEdit project
  | Deactivate

definition runFullSync :: "(string \<Rightarrow> bool) \<Rightarrow> bool \<Rightarrow> bool \<Rightarrow> world \<Rightarrow> world" where
  \<comment> \<open>second argument: \<^verbatim>\<open>getWorkspaceFolder(uri)\<close> finds a folder; third: \<^verbatim>\<open>force\<close>\<close>
  "runFullSync existsRel hasFolder force w =
     (if \<not> autoSync w \<and> \<not> force then w
      else if isSyncing w then w
      else if \<not> hasFolder then w
      else case assetsDir (proj w) of
             None \<Rightarrow> w
           | Some assetsItems \<Rightarrow>
               (let w1 = w\<lparr>isSyncing := True, passesStarted := passesStarted w + 1\<rparr>
                in case syncPass existsRel assetsItems (proj w1) of
                     Inr p \<Rightarrow> w1\<lparr>proj := p, resetTimers := resetTimers w1 + 1\<rparr>
                   | Inl (e, p) \<Rightarrow> w1\<lparr>proj := p, isSyncing := False\<rparr>))"

definition debouncedSync :: "bool \<Rightarrow> world \<Rightarrow> world" where
  \<comment> \<open>\<^verbatim>\<open>clearTimeout\<close> of a pending timer, then a new timer\<close>
  "debouncedSync hasFolder w = w\<lparr>syncTimer := Some hasFolder\<rparr>"

definition debounceCallback :: "(string \<Rightarrow> bool) \<Rightarrow> bool \<Rightarrow> world \<Rightarrow> world" where
  "debounceCallback existsRel hasFolder w =
     (if \<not> isSyncing w then runFullSync existsRel hasFolder False w else w)"

fun step :: "(string \<Rightarrow> bool) \<Rightarrow> event \<Rightarrow> world \<Rightarrow> world" where
  "step existsRel (FileEvent hasFolder) w = debouncedSync hasFolder w"
| "step existsRel DebounceFires w =
     (case syncTimer w of
        None \<Rightarrow> w
      | Some hasFolder \<Rightarrow> debounceCallback existsRel hasFolder (w\<lparr>syncTimer := None\<rparr>))"
| "step existsRel ResetFires w =
     (if resetTimers w = 0 then w
      else w\<lparr>isSyncing := False, resetTimers := resetTimers w - 1\<rparr>)"
| "step existsRel (ForceGenerate hasFolder) w = runFullSync existsRel hasFolder True w"
| "step existsRel ToggleAutoSync w = w\<lparr>autoSync := \<not> autoSync w\<rparr>"
| "step existsRel (ExternalEdit p) w = w\<lparr>proj := p\<rparr>"
| "step existsRel Deactivate w = w\<lparr>syncTimer := None\<rparr>"

fun run :: "(string \<Rightarrow> bool) \<Rightarrow> event list \<Rightarrow> world \<Rightarrow> world" where
  "run existsRel [] w = w"
| "run existsRel (e # es) w = run existsRel es (step existsRel e w)"

definition initialWorld :: "bool \<Rightarrow> project \<Rightarrow> world" where
  \<comment> \<open>after \<^verbatim>\<open>activate\<close>: no pass running, no timer armed\<close>
  "initialWorld auto p =
     \<lparr>autoSync = auto, isSyncing = False, syncTimer = None, resetTimers = 0,
      proj = p, passesStarted = 0\<rparr>"

definition isLetter :: "char \<Rightarrow> bool" where
  "isLetter c = (isLowerAZ c \<or> isUpperAZ c)"

subsection \<open>Notions used to state the properties\<close>

text \<open>
  The two filters of \<^verbatim>\<open>generateClassRecursively\<close>, named; and an asset tree with its
  scale-variant directories removed at every depth.
\<close>

definition filesOf :: "entry list \<Rightarrow> entry list" where
  "filesOf items = filter (\<lambda>item. isFile item \<and> \<not> startsWith (dirent_name item) ''.'') items"

definition dirsOf :: "entry list \<Rightarrow> entry list" where
  "dirsOf items = filter (\<lambda>item. isDirectory item \<and> \<not> isVariantName (dirent_name item)) items"

fun withoutVariants :: "entry list \<Rightarrow> entry list" where
  "withoutVariants [] = []"
| "withoutVariants (Dir n cs # es) =
     (if isVariantName n then withoutVariants es
      else Dir n (withoutVariants cs) # withoutVariants es)"
| "withoutVariants (File n # es) = File n # withoutVariants es"
| "withoutVariants (Other n # es) = Other n # withoutVariants es"



definition withoutVariantsInCategories :: "entry list \<Rightarrow> entry list" where
  "withoutVariantsInCategories assetsItems =
     map (\<lambda>e. case e of Dir n cs \<Rightarrow> Dir n (withoutVariants cs) | _ \<Rightarrow> e) assetsItems"


text \<open>
  The names one generation pass emits; an output directory with no subdirectory named
  like a generated file; the listing a pass starts from; the coordinator's guard and its
  armed two-second callbacks agree.
\<close>

definition emittedFileNames :: "entry list \<Rightarrow> string list" where
  "emittedFileNames assetsItems =
     ''assets_app.dart'' # map (\<lambda>d. partFileNameOf (dirent_name d)) (filter isDirectory assetsItems)"

definition noDartDirectory :: "outdir \<Rightarrow> bool" where
  "noDartDirectory out = (\<forall>n. endsWith n ''.dart'' \<longrightarrow> map_of out n \<noteq> Some Directory)"

definition listingOf :: "outdir option \<Rightarrow> outdir" where
  "listingOf outState = (case outState of None \<Rightarrow> [] | Some l \<Rightarrow> l)"


definition guardConsistent :: "world \<Rightarrow> bool" where
  "guardConsistent w = (resetTimers w = (if isSyncing w then 1 else 0))"


text \<open>
  The loop over \<^verbatim>\<open>dirs\<close> that builds \<^verbatim>\<open>nestedClassesContent\<close>, as a recursion on the
  list: it gives the generator an equation that evaluates on a concrete tree.
\<close>

primrec nestedLoop :: "entry list \<Rightarrow> string \<Rightarrow> string \<Rightarrow> string" where
  "nestedLoop [] rel cls = []"
| "nestedLoop (d # ds) rel cls =
     generateClassRecursively (children d) (rel @ ''/'' @ dirent_name d)
       (nestedClassNameOf cls (dirent_name d)) @ nestedLoop ds rel cls"

text \<open>
  The files for which the generator emits a string-valued property, each with the
  relative path of its directory, in the order of the generated text; the lines of the
  generated text; names that hold no line feed.
\<close>

function reachedFiles :: "entry list \<Rightarrow> string \<Rightarrow> (string \<times> string) list" where
  "reachedFiles items rel =
     map (\<lambda>f. (rel, dirent_name f)) (filesOf items) @
     concat (map (\<lambda>d. reachedFiles (children d) (rel @ ''/'' @ dirent_name d)) (dirsOf items))"
  by pat_completeness auto
termination
proof (relation "measure (\<lambda>(items, rel). size_list size items)")
  show "wf (measure (\<lambda>(items, rel). size_list size items))"
    by simp
next
  fix items :: "entry list" and rel :: string and d :: entry
  assume "d \<in> set (dirsOf items)"
  then have "d \<in> set items" and isd: "isDirectory d" by (simp_all add: dirsOf_def)
  obtain n cs where e: "d = Dir n cs"
    using isd isDirectory.elims(2) by blast
  have "size_list size cs < size_list size items"
    using \<open>d \<in> set items\<close> unfolding e
    by (induction items) auto
  then show "((children d, rel @ ''/'' @ dirent_name d), items, rel)
             \<in> measure (\<lambda>(items, rel). size_list size items)"
    by (simp add: e)
qed

definition stringPropertyLine :: "string \<Rightarrow> string \<Rightarrow> string" where
  "stringPropertyLine rel fileName =
     ''  final String '' @ formatPropertyName (stripExtension fileName) @ '' = '' @ sq @
     ''assets/'' @ forwardSlashes rel @ ''/'' @ fileName @ sq @ '';'' @
     (if endsWith (toLowerCase fileName) ''.svg'' then '' // SVG File'' else [])"

definition isStringPropertyLine :: "string \<Rightarrow> bool" where
  "isStringPropertyLine l = startsWith l ''  final String ''"

fun lineFeedFree :: "entry \<Rightarrow> bool" where
  "lineFeedFree (File n) = (CHR 0x0A \<notin> set n)"
| "lineFeedFree (Other n) = (CHR 0x0A \<notin> set n)"
| "lineFeedFree (Dir n cs) = (CHR 0x0A \<notin> set n \<and> (\<forall>c\<in>set cs. lineFeedFree c))"


definition classHeaderLine :: "string \<Rightarrow> string" where
  "classHeaderLine cls = ''class '' @ cls @ '' {''"

definition constructorLine :: "string \<Rightarrow> string" where
  "constructorLine cls = ''  const '' @ cls @ ''();''"

definition classPropertyLine :: "string \<Rightarrow> string \<Rightarrow> string" where
  "classPropertyLine cls dirName =
     ''  final '' @ nestedClassNameOf cls dirName @ '' '' @ formatPropertyName dirName @
     '' = const '' @ nestedClassNameOf cls dirName @ ''();''"


primrec reachedLoop :: "entry list \<Rightarrow> string \<Rightarrow> (string \<times> string) list" where
  "reachedLoop [] rel = []"
| "reachedLoop (d # ds) rel =
     reachedFiles (children d) (rel @ ''/'' @ dirent_name d) @ reachedLoop ds rel"


text \<open>
  A manifest that has its section marker followed, later, by its sub-block marker; the
  texts and the writes of one generation pass as functions of the asset root; a name
  that the cleanup deletes.
\<close>

definition hasAssetsBlock :: "string list \<Rightarrow> bool" where
  "hasAssetsBlock ls =
     (\<exists>A x B y C. ls = A @ x # B @ y # C \<and> startsWith x ''flutter:'' \<and> startsWith y ''  assets:'')"


definition declsOf :: "entry list \<Rightarrow> string" where
  "declsOf ds = concat (map (\<lambda>d. ''part '' @ sq @ partFileNameOf (dirent_name d) @ sq @ '';\<newline>'') ds)"

definition bodyOf :: "entry list \<Rightarrow> string" where
  "bodyOf ds =
     concat (map (\<lambda>d. ''  static const '' @ formatPropertyName (dirent_name d) @ '' = '' @
                    rootClassNameOf (dirent_name d) @ ''();\<newline>'') ds)"

definition partFilesOf :: "entry list \<Rightarrow> (string \<times> node) list" where
  "partFilesOf ds = map (\<lambda>d. (partFileNameOf (dirent_name d), RegularFile (partContentOf d))) ds"

definition writesOf :: "entry list \<Rightarrow> (string \<times> node) list" where
  "writesOf assetsItems =
     partFilesOf (filter isDirectory assetsItems) @
     [(''assets_app.dart'',
       RegularFile (declsOf (filter isDirectory assetsItems) @ ''\<newline>'' @ ''class AssetsApp {\<newline>'' @
         ''  AssetsApp._();\<newline>\<newline>'' @ bodyOf (filter isDirectory assetsItems) @ ''}\<newline>''))]"

definition writeAll :: "outdir \<Rightarrow> (string \<times> node) list \<Rightarrow> outdir" where
  "writeAll out ws = foldl (\<lambda>acc (n, v). AList.update n v acc) out ws"

definition isStale :: "string list \<Rightarrow> string \<Rightarrow> bool" where
  "isStale generated n = (n \<notin> set generated \<and> endsWith n ''.dart'')"


declare generateClassRecursively.simps [simp del]
declare scanDirs.simps [simp del]
declare reachedFiles.simps [simp del]

section \<open>Properties of the identifier derivation\<close>

lemma lowerFirst_alnum: "list_all isAlnum s \<Longrightarrow> list_all isAlnum (lowerFirst s)"
  unfolding lowerFirst_def
  by (cases s) (auto simp: isAlnum_def toLowerCaseChar_def isLowerAZ_def isUpperAZ_def isDigit_def)

lemma lowerFirst_head:
  "list_all isAlnum s \<Longrightarrow> lowerFirst s = c # cs \<Longrightarrow> isLowerAZ c \<or> isDigit c"
  unfolding lowerFirst_def
  by (cases s) (auto simp: isAlnum_def toLowerCaseChar_def isLowerAZ_def isUpperAZ_def isDigit_def)

lemma keyword_Asset_fresh: "k \<in> set dartKeywords \<Longrightarrow> k @ ''Asset'' \<notin> set dartKeywords"
  unfolding dartKeywords_def by auto

lemma keyword_head:
  "k \<in> set dartKeywords \<Longrightarrow> (case k of [] \<Rightarrow> False | c # _ \<Rightarrow> isLowerAZ c)"
  unfolding dartKeywords_def by (auto simp: isLowerAZ_def)

lemma alnum_literals:
  "list_all isAlnum ''item''" "list_all isAlnum ''Asset''" "list_all isAlnum ''unknown''"
  by (simp_all add: isAlnum_def isLowerAZ_def isUpperAZ_def isDigit_def)

lemma unknown_fresh: "''unknown'' \<notin> set dartKeywords"
  unfolding dartKeywords_def by simp

text \<open>
  Claim C2, as amended. The identifier derivation maps \<^verbatim>\<open>my-icon_1\<close> to \<^verbatim>\<open>myIcon1\<close> and
  \<^verbatim>\<open>class\<close> to \<^verbatim>\<open>classAsset\<close>; it maps \<^verbatim>\<open>123abc\<close> to \<^verbatim>\<open>item123abc\<close>: there is no
  delimiter in \<^verbatim>\<open>123abc\<close>, so camel-casing changes nothing, and the prefix \<^verbatim>\<open>item\<close> is
  put in front of the unchanged text.
\<close>

theorem formatPropertyName_examples:
  "formatPropertyName ''my-icon_1'' = ''myIcon1'' \<and>
   formatPropertyName ''class'' = ''classAsset'' \<and>
   formatPropertyName ''123abc'' = ''item123abc''"
  by code_simp

text \<open>
  Claim C2, as stated, fails on its third example: the identifier derived from
  \<^verbatim>\<open>123abc\<close> is not \<^verbatim>\<open>item123Abc\<close>.
\<close>

theorem formatPropertyName_123abc_counterexample:
  "formatPropertyName ''123abc'' \<noteq> ''item123Abc''"
  by code_simp

lemma formatPropertyName_facts:
  "formatPropertyName name \<noteq> [] \<and>
   (case formatPropertyName name of [] \<Rightarrow> False | c # _ \<Rightarrow> isLetter c) \<and>
   list_all isAlnum (formatPropertyName name) \<and>
   formatPropertyName name \<notin> set dartKeywords"
proof -
  define a where "a = lowerFirst (filter isAlnum (camelReplace name))"
  define b where "b = (if startsWithDigit a then ''item'' @ a else a)"
  define d where "d = (if b \<in> set dartKeywords then b @ ''Asset'' else b)"
  have r: "formatPropertyName name = (if d = [] then ''unknown'' else d)"
    by (simp only: formatPropertyName_def Let_def a_def b_def d_def)
  have a_alnum: "list_all isAlnum a"
    unfolding a_def by (rule lowerFirst_alnum) (simp add: list_all_iff)
  have b_alnum: "list_all isAlnum b"
    using a_alnum alnum_literals(1) unfolding b_def by simp
  have b_head: "case b of [] \<Rightarrow> True | c # _ \<Rightarrow> isLowerAZ c"
  proof (cases a)
    case Nil
    then show ?thesis by (simp add: b_def startsWithDigit_def)
  next
    case (Cons c cs)
    with a_alnum have "isLowerAZ c \<or> isDigit c"
      using lowerFirst_head [of "filter isAlnum (camelReplace name)" c cs]
      by (simp add: a_def list_all_iff)
    then show ?thesis
      using Cons by (auto simp: b_def startsWithDigit_def isLowerAZ_def)
  qed
  have d_alnum: "list_all isAlnum d"
    using b_alnum alnum_literals(2) unfolding d_def by simp
  have d_head: "case d of [] \<Rightarrow> True | c # _ \<Rightarrow> isLowerAZ c"
  proof (cases "b \<in> set dartKeywords")
    case True
    have "case b of [] \<Rightarrow> False | c # _ \<Rightarrow> isLowerAZ c"
      using True by (rule keyword_head)
    then show ?thesis
      using True by (simp add: d_def split: list.splits)
  next
    case False
    then show ?thesis using b_head by (simp add: d_def)
  qed
  have d_fresh: "d \<notin> set dartKeywords"
    unfolding d_def using keyword_Asset_fresh by simp
  show ?thesis
  proof (cases d)
    case Nil
    then show ?thesis
      unfolding r using alnum_literals(3) unknown_fresh
      by (simp add: isLetter_def isLowerAZ_def)
  next
    case (Cons c cs)
    then show ?thesis
      unfolding r using d_alnum d_fresh d_head by (simp add: isLetter_def)
  qed
qed

text \<open>
  Claim C9. For every input string the identifier derivation returns a non-empty string
  that starts with an ASCII letter, consists of characters of \<^verbatim>\<open>[A-Za-z0-9]\<close> only, and
  is none of the eleven reserved words.
\<close>

theorem formatPropertyName_well_formed:
  "formatPropertyName name \<noteq> [] \<and>
   (case formatPropertyName name of [] \<Rightarrow> False | c # _ \<Rightarrow> isLetter c) \<and>
   list_all isAlnum (formatPropertyName name) \<and>
   formatPropertyName name \<notin> set dartKeywords"
  by (rule formatPropertyName_facts)

theorem formatPropertyName_well_formed_witness:
  "formatPropertyName ''my-icon_1'' = ''myIcon1'' \<and>
   list_all isAlnum (formatPropertyName ''my-icon_1'') \<and>
   formatPropertyName ''my-icon_1'' \<notin> set dartKeywords"
proof -
  have e: "formatPropertyName ''my-icon_1'' = ''myIcon1''" by code_simp
  show ?thesis using formatPropertyName_well_formed [of "''my-icon_1''"] e by simp
qed


section \<open>Lines, splitting and joining\<close>

lemma splitOn_nonempty: "splitOn c s \<noteq> []"
  by (induction s) (auto split: list.splits)

lemma length_splitOn: "length (splitOn c s) = Suc (count_list s c)"
  by (induction s) (auto split: list.splits simp: splitOn_nonempty)

lemma splitOn_free: "l \<in> set (splitOn c s) \<Longrightarrow> c \<notin> set l"
  by (induction s arbitrary: l) (auto split: list.splits if_splits)

lemma splitOn_single: "c \<notin> set l \<Longrightarrow> splitOn c l = [l]"
  by (induction l) auto

lemma splitOn_append: "splitOn c (l @ c # r) = splitOn c l @ splitOn c r"
  by (induction l) (auto split: list.splits simp: splitOn_nonempty)

lemma splitOn_joinWith:
  "ls \<noteq> [] \<Longrightarrow> splitOn c (joinWith c ls) = concat (map (splitOn c) ls)"
  by (induction c ls rule: joinWith.induct) (simp_all add: splitOn_append)

lemma joinWith_splitOn: "joinWith c (splitOn c s) = s"
proof (induction s)
  case Nil
  then show ?case by simp
next
  case (Cons a s)
  obtain l ls where e: "splitOn c s = l # ls"
    using splitOn_nonempty [of c s] by (cases "splitOn c s") auto
  show ?case using Cons e by (cases ls) auto
qed

lemma subseq_concat_split:
  "subseq xs ys \<Longrightarrow> \<forall>x\<in>set xs. c \<notin> set x \<Longrightarrow> subseq xs (concat (map (splitOn c) ys))"
proof (induction rule: list_emb.induct)
  case (list_emb_Nil ys)
  then show ?case by simp
next
  case (list_emb_Cons xs ys y)
  then show ?case by (simp add: list_emb_append2)
next
  case (list_emb_Cons2 x y xs ys)
  then have "splitOn c y = [x]" by (simp add: splitOn_single)
  then show ?case using list_emb_Cons2 by simp
qed

lemma subseq_lines_of_join:
  assumes "subseq xs ys" and "\<forall>x\<in>set xs. c \<notin> set x"
  shows "subseq xs (splitOn c (joinWith c ys))"
proof (cases ys)
  case Nil
  then show ?thesis using assms by (auto dest: list_emb_Nil2)
next
  case (Cons y ys')
  then show ?thesis
    using subseq_concat_split [OF assms] by (simp add: splitOn_joinWith del: joinWith.simps)
qed

lemma subseq_spliceInsert: "subseq ls (spliceInsert ls i x)"
proof -
  have "subseq (drop i ls) (x # drop i ls)"
    by (rule list_emb_Cons) simp
  then have "subseq (take i ls @ drop i ls) (take i ls @ x # drop i ls)"
    by (simp only: subseq_append')
  then show ?thesis by (simp add: spliceInsert_def)
qed

lemma subseq_insertRequired: "subseq ls (insertRequired ex ai req ls k)"
proof (induction req arbitrary: ls k)
  case Nil
  then show ?case by simp
next
  case (Cons r req)
  have "subseq ls (spliceInsert ls (ai + 1 + k) (''    '' @ r))" by (rule subseq_spliceInsert)
  then show ?case
    using Cons [of "spliceInsert ls (ai + 1 + k) (''    '' @ r)" "k + 1"] Cons [of ls k]
    by (auto intro: subseq_order.trans)
qed

lemma subseq_locateFlutter: "subseq ls (fst (locateFlutter ls))"
  by (simp add: locateFlutter_def Let_def subseq_rev_drop_many split: option.splits)

lemma subseq_locateAssets: "subseq ls (fst (locateAssets ls i))"
  by (simp add: locateAssets_def subseq_spliceInsert split: option.splits)

lemma subseq_syncLines: "subseq (filter (keepLine ex) ls) (syncLines ex req ls)"
proof -
  obtain ls1 fi where a: "locateFlutter ls = (ls1, fi)" by (cases "locateFlutter ls")
  obtain ls2 ai where b: "locateAssets ls1 fi = (ls2, ai)" by (cases "locateAssets ls1 fi")
  have "subseq ls ls1" using subseq_locateFlutter [of ls] a by simp
  moreover have "subseq ls1 ls2" using subseq_locateAssets [of ls1 fi] b by simp
  moreover have "subseq ls2 (insertRequired (map trim ls2) ai req ls2 0)"
    by (rule subseq_insertRequired)
  ultimately have "subseq ls (insertRequired (map trim ls2) ai req ls2 0)"
    by (blast intro: subseq_order.trans)
  then show ?thesis
    by (simp add: syncLines_def a b)
qed

text \<open>
  Claim C5, as amended. Every line of the manifest that the pruning rule keeps is found
  in the rewritten manifest, verbatim and in order: the lines that are not of the
  asset-entry form (trimmed text starting with \<^verbatim>\<open>- assets/\<close> and holding two slashes
  or more), and the lines of that form whose path exists. A line of that form whose path
  does not exist is removed wherever it stands, also outside the assets section.
\<close>

theorem sync_keeps_surviving_lines:
  "subseq (filter (keepLine existsRel) (splitOn CHR 0x0A content))
     (splitOn CHR 0x0A (syncPubspecContent existsRel req content))"
proof -
  let ?ls = "splitOn CHR 0x0A content"
  have "subseq (filter (keepLine existsRel) ?ls) (syncLines existsRel req ?ls)"
    by (rule subseq_syncLines)
  moreover have "\<forall>x\<in>set (filter (keepLine existsRel) ?ls). CHR 0x0A \<notin> set x"
    by (auto dest: splitOn_free)
  ultimately show ?thesis
    unfolding syncPubspecContent_def by (rule subseq_lines_of_join)
qed

theorem sync_keeps_surviving_lines_witness:
  "subseq [''name: demo'', ''flutter:'', ''  assets:'', ''  shaders:'']
     (splitOn CHR 0x0A (syncPubspecContent (existsIn [Dir ''assets'' [], File ''pubspec.yaml'']) []
        ''name: demo\<newline>flutter:\<newline>  assets:\<newline>  shaders:\<newline>    - assets/shaders/ripple.frag''))"
proof -
  have e: "filter (keepLine (existsIn [Dir ''assets'' [], File ''pubspec.yaml'']))
      (splitOn CHR 0x0A ''name: demo\<newline>flutter:\<newline>  assets:\<newline>  shaders:\<newline>    - assets/shaders/ripple.frag'')
     = [''name: demo'', ''flutter:'', ''  assets:'', ''  shaders:'']"
    by code_simp
  show ?thesis
    using sync_keeps_surviving_lines [of "existsIn [Dir ''assets'' [], File ''pubspec.yaml'']"
      "''name: demo\<newline>flutter:\<newline>  assets:\<newline>  shaders:\<newline>    - assets/shaders/ripple.frag''" "[]"]
    unfolding e .
qed

text \<open>
  Claim C5, as stated, fails: a line of the \<^verbatim>\<open>shaders\<close> section, outside the assets
  section, is removed because the file it names does not exist.
\<close>

theorem line_outside_assets_section_removed_counterexample:
  "syncPubspecYaml (existsIn [Dir ''assets'' [], File ''pubspec.yaml'']) []
     (Some ''name: demo\<newline>flutter:\<newline>  assets:\<newline>  shaders:\<newline>    - assets/shaders/ripple.frag'')
   = Some ''name: demo\<newline>flutter:\<newline>  assets:\<newline>  shaders:''"
  by code_simp


section \<open>The generator on the asset tree\<close>

lemma generate_unfold:
  "generateClassRecursively items rel cls =
     ''class '' @ cls @ '' {\<newline>'' @ ''  const '' @ cls @ ''();\<newline>\<newline>'' @
     concat (map (\<lambda>d. dirPropertyLine cls (dirent_name d)) (dirsOf items)) @
     concat (map (\<lambda>f. filePropertyLine rel (dirent_name f)) (filesOf items)) @
     ''}\<newline>\<newline>'' @
     concat (map (\<lambda>d. generateClassRecursively (children d) (rel @ ''/'' @ dirent_name d)
                    (nestedClassNameOf cls (dirent_name d))) (dirsOf items))"
  by (subst generateClassRecursively.simps) (simp add: Let_def dirsOf_def filesOf_def)

lemma nestedLoop_concat:
  "nestedLoop ds rel cls =
     concat (map (\<lambda>d. generateClassRecursively (children d) (rel @ ''/'' @ dirent_name d)
                    (nestedClassNameOf cls (dirent_name d))) ds)"
  by (induction ds) simp_all

lemma generate_code [code]:
  "generateClassRecursively items rel cls =
     ''class '' @ cls @ '' {\<newline>'' @ ''  const '' @ cls @ ''();\<newline>\<newline>'' @
     concat (map (\<lambda>d. dirPropertyLine cls (dirent_name d)) (dirsOf items)) @
     concat (map (\<lambda>f. filePropertyLine rel (dirent_name f)) (filesOf items)) @
     ''}\<newline>\<newline>'' @ nestedLoop (dirsOf items) rel cls"
  by (simp add: nestedLoop_concat generate_unfold [of items])

lemma scanDirs_unfold:
  "scanDirs items rel =
     (''- assets/'' @ forwardSlashes rel @ ''/'') #
     concat (map (\<lambda>d. scanDirs (children d) (rel @ ''/'' @ dirent_name d)) (dirsOf items))"
  by (subst scanDirs.simps) (simp add: Let_def dirsOf_def)

lemma generate_induct [case_names step]:
  assumes "\<And>items rel cls.
             (\<And>d. d \<in> set (dirsOf items) \<Longrightarrow>
                P (children d) (rel @ ''/'' @ dirent_name d) (nestedClassNameOf cls (dirent_name d)))
             \<Longrightarrow> P items rel cls"
  shows "P items rel cls"
proof (induction items rel cls rule: generateClassRecursively.induct)
  case (1 items relativePath className)
  show ?case
    by (rule assms) (rule 1, auto simp: dirsOf_def)
qed

lemma scanDirs_induct [case_names step]:
  assumes "\<And>items rel.
             (\<And>d. d \<in> set (dirsOf items) \<Longrightarrow> P (children d) (rel @ ''/'' @ dirent_name d))
             \<Longrightarrow> P items rel"
  shows "P items rel"
proof (induction items rel rule: scanDirs.induct)
  case (1 items relPath)
  show ?case
    by (rule assms) (rule 1, auto simp: dirsOf_def)
qed

lemma filesOf_withoutVariants: "filesOf (withoutVariants items) = filesOf items"
  by (induction items rule: withoutVariants.induct) (simp_all add: filesOf_def)

lemma dirsOf_withoutVariants:
  "dirsOf (withoutVariants items) =
     map (\<lambda>d. Dir (dirent_name d) (withoutVariants (children d))) (dirsOf items)"
  by (induction items rule: withoutVariants.induct) (simp_all add: dirsOf_def)

lemma generate_withoutVariants:
  "generateClassRecursively (withoutVariants items) rel cls = generateClassRecursively items rel cls"
proof (induction items rel cls rule: generate_induct)
  case (step items rel cls)
  have "map (\<lambda>d. generateClassRecursively (withoutVariants (children d))
               (rel @ ''/'' @ dirent_name d) (nestedClassNameOf cls (dirent_name d))) (dirsOf items)
      = map (\<lambda>d. generateClassRecursively (children d)
               (rel @ ''/'' @ dirent_name d) (nestedClassNameOf cls (dirent_name d))) (dirsOf items)"
    by (rule map_cong [OF refl]) (rule step)
  then show ?case
    by (subst generate_unfold, subst (2) generate_unfold)
       (simp add: filesOf_withoutVariants dirsOf_withoutVariants o_def cong: map_cong)
qed

lemma scanDirs_withoutVariants:
  "scanDirs (withoutVariants items) rel = scanDirs items rel"
proof (induction items rel rule: scanDirs_induct)
  case (step items rel)
  have "map (\<lambda>d. scanDirs (withoutVariants (children d)) (rel @ ''/'' @ dirent_name d)) (dirsOf items)
      = map (\<lambda>d. scanDirs (children d) (rel @ ''/'' @ dirent_name d)) (dirsOf items)"
    by (rule map_cong [OF refl]) (rule step)
  then show ?case
    by (subst scanDirs_unfold, subst (2) scanDirs_unfold)
       (simp add: dirsOf_withoutVariants o_def cong: map_cong)
qed

lemma isDirectory_strip:
  "isDirectory (case e of Dir n cs \<Rightarrow> Dir n (withoutVariants cs) | _ \<Rightarrow> e) = isDirectory e"
  by (cases e) simp_all

lemma dirent_name_strip:
  "dirent_name (case e of Dir n cs \<Rightarrow> Dir n (withoutVariants cs) | _ \<Rightarrow> e) = dirent_name e"
  by (cases e) simp_all

lemma partContentOf_strip:
  "partContentOf (case e of Dir n cs \<Rightarrow> Dir n (withoutVariants cs) | _ \<Rightarrow> e) = partContentOf e"
  by (cases e) (simp_all add: partContentOf_def generate_withoutVariants)

lemma scan_strip:
  "scanDirs (children (case e of Dir n cs \<Rightarrow> Dir n (withoutVariants cs) | _ \<Rightarrow> e)) r
     = scanDirs (children e) r"
  by (cases e) (simp_all add: scanDirs_withoutVariants)

lemma categoryLoop_map:
  assumes "\<And>e. dirent_name (f e) = dirent_name e" and "\<And>e. partContentOf (f e) = partContentOf e"
  shows "categoryLoop (map f ds) st = categoryLoop ds st"
  by (induction ds arbitrary: st) (simp_all add: assms Let_def split: sum.splits)

lemma requiredAssetsOf_strip:
  "requiredAssetsOf (withoutVariantsInCategories items) = requiredAssetsOf items"
  by (simp add: requiredAssetsOf_def withoutVariantsInCategories_def filter_map o_def
       isDirectory_strip dirent_name_strip scan_strip)

lemma generateAll_strip:
  "generateAllAssetsClasses (withoutVariantsInCategories items) out = generateAllAssetsClasses items out"
proof -
  have "filter isDirectory (withoutVariantsInCategories items)
      = map (\<lambda>e. case e of Dir n cs \<Rightarrow> Dir n (withoutVariants cs) | _ \<Rightarrow> e) (filter isDirectory items)"
    by (simp add: withoutVariantsInCategories_def filter_map o_def isDirectory_strip)
  then show ?thesis
    unfolding generateAllAssetsClasses_def Let_def
    by (simp only: categoryLoop_map [OF dirent_name_strip partContentOf_strip])
qed

text \<open>
  Claim C6. Scale-variant directories, at any depth under a category, leave no trace:
  the generated class text, the required manifest entries, the whole generation pass and
  the whole list of required entries are what they are for the tree without these
  directories, whatever the directories hold.
\<close>

theorem variant_directories_ignored:
  "generateClassRecursively (withoutVariants items) rel cls = generateClassRecursively items rel cls \<and>
   scanDirs (withoutVariants items) rel = scanDirs items rel \<and>
   generateAllAssetsClasses (withoutVariantsInCategories assetsItems) out
     = generateAllAssetsClasses assetsItems out \<and>
   requiredAssetsOf (withoutVariantsInCategories assetsItems) = requiredAssetsOf assetsItems"
  by (simp only: generate_withoutVariants scanDirs_withoutVariants generateAll_strip
        requiredAssetsOf_strip simp_thms)

theorem variant_directories_ignored_witness:
  "withoutVariants [File ''logo.png'', Dir ''2.0x'' [File ''logo.png''],
      Dir ''icons'' [Dir ''3.0x'' [Dir ''deep'' []], File ''user.svg'']]
     = [File ''logo.png'', Dir ''icons'' [File ''user.svg'']] \<and>
   scanDirs [File ''logo.png'', Dir ''2.0x'' [File ''logo.png''],
      Dir ''icons'' [Dir ''3.0x'' [Dir ''deep'' []], File ''user.svg'']] ''images''
     = [''- assets/images/'', ''- assets/images/icons/'']"
proof -
  have a: "withoutVariants [File ''logo.png'', Dir ''2.0x'' [File ''logo.png''],
      Dir ''icons'' [Dir ''3.0x'' [Dir ''deep'' []], File ''user.svg'']]
     = [File ''logo.png'', Dir ''icons'' [File ''user.svg'']]"
    by code_simp
  have b: "scanDirs [File ''logo.png'', Dir ''icons'' [File ''user.svg'']] ''images''
     = [''- assets/images/'', ''- assets/images/icons/'']"
    by code_simp
  show ?thesis
    using variant_directories_ignored [of "[File ''logo.png'', Dir ''2.0x'' [File ''logo.png''],
      Dir ''icons'' [Dir ''3.0x'' [Dir ''deep'' []], File ''user.svg'']]" "''images''" "''_Image''" "[]" None]
      a b by simp
qed

lemma dot_not_variant: "startsWith d ''.'' \<Longrightarrow> \<not> isVariantName d"
  by (auto simp: startsWith_def isVariantName_def isDigit_def split: list.splits)

lemma sublist_concat_map: "x \<in> set xs \<Longrightarrow> sublist (f x) (concat (map f xs))"
proof -
  assume "x \<in> set xs"
  then obtain ys zs where "xs = ys @ x # zs" by (meson split_list)
  then have "concat (map f xs) = concat (map f ys) @ f x @ concat (map f zs)" by simp
  then show ?thesis by (simp only: sublist_appendI)
qed

lemma nonvariant_directory_generated:
  assumes "\<not> isVariantName d" and "Dir d cs \<in> set items"
  shows "sublist (dirPropertyLine cls d) (generateClassRecursively items rel cls)"
    and "sublist (generateClassRecursively cs (rel @ ''/'' @ d) (nestedClassNameOf cls d))
           (generateClassRecursively items rel cls)"
    and "sublist (scanDirs cs (rel @ ''/'' @ d)) (scanDirs items rel)"
proof -
  have m: "Dir d cs \<in> set (dirsOf items)"
    using assms by (simp add: dirsOf_def)
  let ?hdr = "''class '' @ cls @ '' {\<newline>'' @ ''  const '' @ cls @ ''();\<newline>\<newline>''"
  let ?C1 = "concat (map (\<lambda>d. dirPropertyLine cls (dirent_name d)) (dirsOf items))"
  let ?C2 = "concat (map (\<lambda>f. filePropertyLine rel (dirent_name f)) (filesOf items))"
  let ?C3 = "concat (map (\<lambda>d. generateClassRecursively (children d) (rel @ ''/'' @ dirent_name d)
                    (nestedClassNameOf cls (dirent_name d))) (dirsOf items))"
  have g1: "generateClassRecursively items rel cls = ?hdr @ ?C1 @ (?C2 @ ''}\<newline>\<newline>'' @ ?C3)"
    by (subst generate_unfold) simp
  have g3: "generateClassRecursively items rel cls = (?hdr @ ?C1 @ ?C2 @ ''}\<newline>\<newline>'') @ ?C3"
    by (subst generate_unfold) simp
  have a1: "sublist (dirPropertyLine cls d) ?C1"
    using sublist_concat_map [OF m, of "\<lambda>d. dirPropertyLine cls (dirent_name d)"] by simp
  have a2: "sublist ?C1 (generateClassRecursively items rel cls)"
    by (simp only: g1 sublist_appendI)
  show "sublist (dirPropertyLine cls d) (generateClassRecursively items rel cls)"
    using a1 a2 by (rule sublist_order.order.trans)
  have b1: "sublist (generateClassRecursively cs (rel @ ''/'' @ d) (nestedClassNameOf cls d)) ?C3"
    using sublist_concat_map [OF m, of "\<lambda>d. generateClassRecursively (children d)
       (rel @ ''/'' @ dirent_name d) (nestedClassNameOf cls (dirent_name d))"] by simp
  have b2: "sublist ?C3 (generateClassRecursively items rel cls)"
    by (simp only: g3 sublist_append_leftI)
  show "sublist (generateClassRecursively cs (rel @ ''/'' @ d) (nestedClassNameOf cls d))
           (generateClassRecursively items rel cls)"
    using b1 b2 by (rule sublist_order.order.trans)
  let ?S = "concat (map (\<lambda>d. scanDirs (children d) (rel @ ''/'' @ dirent_name d)) (dirsOf items))"
  have c1: "sublist (scanDirs cs (rel @ ''/'' @ d)) ?S"
    using sublist_concat_map [OF m, of "\<lambda>d. scanDirs (children d) (rel @ ''/'' @ dirent_name d)"]
    by simp
  have c2: "sublist ?S (scanDirs items rel)"
    by (subst scanDirs_unfold) (simp add: sublist_Cons_right)
  show "sublist (scanDirs cs (rel @ ''/'' @ d)) (scanDirs items rel)"
    using c1 c2 by (rule sublist_order.order.trans)
qed

text \<open>
  Claim C10. A directory whose name starts with a dot is not a scale variant, and it is
  treated as any other subdirectory: the class text of its parent holds its class-valued
  property and the whole class text generated for it, and the manifest entries of the
  parent hold its own entry followed by those of its descendants.
\<close>

theorem dot_directories_recursed:
  assumes "startsWith d ''.''" and "Dir d cs \<in> set items"
  shows "sublist (dirPropertyLine cls d) (generateClassRecursively items rel cls) \<and>
         sublist (generateClassRecursively cs (rel @ ''/'' @ d) (nestedClassNameOf cls d))
           (generateClassRecursively items rel cls) \<and>
         sublist (scanDirs cs (rel @ ''/'' @ d)) (scanDirs items rel) \<and>
         hd (scanDirs cs (rel @ ''/'' @ d)) = ''- assets/'' @ forwardSlashes (rel @ ''/'' @ d) @ ''/''"
proof -
  have "\<not> isVariantName d" using assms(1) by (rule dot_not_variant)
  then show ?thesis
    using nonvariant_directory_generated [OF _ assms(2)]
    by (simp add: scanDirs_unfold [of cs])
qed

theorem dot_directories_recursed_witness:
  "startsWith ''.hidden'' ''.'' \<and>
   scanDirs [Dir ''.hidden'' [Dir ''deep'' []]] ''images''
     = [''- assets/images/'', ''- assets/images/.hidden/'', ''- assets/images/.hidden/deep/''] \<and>
   sublist (scanDirs [Dir ''deep'' []] (''images'' @ ''/'' @ ''.hidden''))
     (scanDirs [Dir ''.hidden'' [Dir ''deep'' []]] ''images'')"
proof -
  have h1: "startsWith ''.hidden'' ''.''" by code_simp
  have h2: "Dir ''.hidden'' [Dir ''deep'' []] \<in> set [Dir ''.hidden'' [Dir ''deep'' []]]" by simp
  have e: "scanDirs [Dir ''.hidden'' [Dir ''deep'' []]] ''images''
     = [''- assets/images/'', ''- assets/images/.hidden/'', ''- assets/images/.hidden/deep/'']"
    by code_simp
  show ?thesis
    using dot_directories_recursed [OF h1 h2, of "''_Image''" "''images''"] h1 e by blast
qed

section \<open>The pruning rule\<close>

lemma set_spliceInsert: "set (spliceInsert ls i x) = insert x (set ls)"
proof -
  have "set (take i ls) \<union> set (drop i ls) = set ls"
    by (metis append_take_drop_id set_append)
  then show ?thesis by (auto simp: spliceInsert_def)
qed

lemma set_insertRequired_mono: "set ls \<subseteq> set (insertRequired ex ai req ls k)"
proof (induction req arbitrary: ls k)
  case Nil
  then show ?case by simp
next
  case (Cons r req)
  have "set ls \<subseteq> set (spliceInsert ls (ai + 1 + k) (''    '' @ r))"
    by (auto simp: set_spliceInsert)
  then show ?case
    using Cons [of "spliceInsert ls (ai + 1 + k) (''    '' @ r)" "k + 1"] Cons [of ls k]
    by auto
qed

lemma original_line_in_inserted:
  assumes "l \<in> set ls"
  shows "l \<in> set (insertRequired (map trim (fst (locateAssets (fst (locateFlutter ls)) fi)))
                   ai req (fst (locateAssets (fst (locateFlutter ls)) fi)) 0)"
proof -
  have "l \<in> set (fst (locateFlutter ls))"
    using assms by (simp add: locateFlutter_def Let_def split: option.splits)
  then have "l \<in> set (fst (locateAssets (fst (locateFlutter ls)) fi))"
    by (simp add: locateAssets_def set_spliceInsert split: option.splits)
  then show ?thesis
    using set_insertRequired_mono by blast
qed

lemma syncLines_filter:
  "\<exists>ls3. syncLines ex req ls = filter (keepLine ex) ls3 \<and> set ls \<subseteq> set ls3"
proof -
  obtain ls1 fi where a: "locateFlutter ls = (ls1, fi)" by (cases "locateFlutter ls")
  obtain ls2 ai where b: "locateAssets ls1 fi = (ls2, ai)" by (cases "locateAssets ls1 fi")
  have "set ls \<subseteq> set (insertRequired (map trim ls2) ai req ls2 0)"
    using original_line_in_inserted [of _ ls fi ai req] a b by auto
  then show ?thesis
    by (auto simp: syncLines_def a b)
qed

lemma isPruneCandidate_count:
  "isPruneCandidate l =
     (startsWith (trim l) ''- assets/'' \<and> 2 \<le> count_list (trim l) CHR ''/'')"
  by (auto simp: isPruneCandidate_def Let_def length_splitOn)

text \<open>
  Claim C1, as amended. A line of the file is removed by the pruning pass exactly when
  its trimmed text starts with \<^verbatim>\<open>- assets/\<close>, holds at least two slashes, and the path
  it names (the text after the dash, quotes removed, trimmed) does not exist under the
  project folder. A root-category entry written with its trailing slash, as the
  synchronizer writes it, holds two slashes and is pruned when its directory is gone; an
  entry with one slash only is never pruned.
\<close>

theorem prune_rule:
  assumes "l \<in> set (splitOn CHR 0x0A content)"
  shows "(l \<in> set (syncLines existsRel req (splitOn CHR 0x0A content))) =
         (\<not> (startsWith (trim l) ''- assets/'' \<and> 2 \<le> count_list (trim l) CHR ''/'' \<and>
             \<not> existsRel (referencedPath l)))"
proof -
  obtain ls3 where e: "syncLines existsRel req (splitOn CHR 0x0A content) = filter (keepLine existsRel) ls3"
    and m: "set (splitOn CHR 0x0A content) \<subseteq> set ls3"
    using syncLines_filter by blast
  have "l \<in> set ls3" using assms m by blast
  then show ?thesis
    unfolding e by (auto simp: keepLine_def isPruneCandidate_count)
qed

theorem prune_rule_witness:
  "''    - assets/images/'' \<in> set (splitOn CHR 0x0A ''flutter:\<newline>  assets:\<newline>    - assets/images/\<newline>    - assets/fonts'') \<and>
   ''    - assets/images/'' \<notin> set (syncLines (existsIn [Dir ''assets'' [], File ''pubspec.yaml'']) []
        (splitOn CHR 0x0A ''flutter:\<newline>  assets:\<newline>    - assets/images/\<newline>    - assets/fonts''))"
proof -
  let ?c = "''flutter:\<newline>  assets:\<newline>    - assets/images/\<newline>    - assets/fonts''"
  let ?l = "''    - assets/images/''"
  have h: "?l \<in> set (splitOn CHR 0x0A ?c)" by code_simp
  have r: "startsWith (trim ?l) ''- assets/'' \<and> 2 \<le> count_list (trim ?l) CHR ''/'' \<and>
           \<not> existsIn [Dir ''assets'' [], File ''pubspec.yaml''] (referencedPath ?l)"
    by code_simp
  show ?thesis
    using prune_rule [OF h, of "existsIn [Dir ''assets'' [], File ''pubspec.yaml'']" "[]"] r h
    by blast
qed

text \<open>
  Claim C1, as stated, fails: with an empty asset root, the root-category entry
  \<^verbatim>\<open>- assets/images/\<close> is removed from the manifest.
\<close>

theorem root_entry_pruned_counterexample:
  "syncPubspecYaml (existsIn [Dir ''assets'' [], File ''pubspec.yaml'']) []
     (Some ''flutter:\<newline>  assets:\<newline>    - assets/images/'')
   = Some ''flutter:\<newline>  assets:''"
  by code_simp


section \<open>The output directory\<close>

lemma endsWith_append: "endsWith (a @ p) p"
  by (simp add: endsWith_def)

lemma endsWith_partFileName: "endsWith (partFileNameOf r) ''.dart''"
  unfolding partFileNameOf_def by (rule endsWith_append)

lemma endsWith_main: "endsWith ''assets_app.dart'' ''.dart''"
  by (simp add: endsWith_def)

lemma writeFileSync_Inr:
  "writeFileSync out n c = Inr out' \<Longrightarrow> out' = AList.update n (RegularFile c) out"
  by (auto simp: writeFileSync_def split: option.splits node.splits)

lemma writeFileSync_ok:
  "map_of out n \<noteq> Some Directory \<Longrightarrow> writeFileSync out n c = Inr (AList.update n (RegularFile c) out)"
  by (auto simp: writeFileSync_def split: option.splits node.splits)

lemma unlinkSync_Inr:
  "unlinkSync out n = Inr out' \<Longrightarrow> out' = AList.delete n out"
  by (auto simp: unlinkSync_def split: option.splits node.splits)

lemma categoryLoop_other_files:
  "categoryLoop ds st = Inr st' \<Longrightarrow> \<not> endsWith n ''.dart'' \<Longrightarrow>
     map_of (outDir st') n = map_of (outDir st) n"
proof (induction ds arbitrary: st)
  case Nil
  then show ?case by simp
next
  case (Cons d ds)
  from Cons.prems(1) obtain out1 where
    w: "writeFileSync (outDir st) (partFileNameOf (dirent_name d)) (partContentOf d) = Inr out1"
    by (auto simp: Let_def split: sum.splits)
  let ?st1 = "st\<lparr>partsDecl := partsDecl st @ ''part '' @ sq @ partFileNameOf (dirent_name d) @ sq @ '';\<newline>'',
                   appAssetsBody := appAssetsBody st @ ''  static const '' @ formatPropertyName (dirent_name d) @ '' = '' @
                                      rootClassNameOf (dirent_name d) @ ''();\<newline>'',
                   generatedFiles := generatedFiles st @ [partFileNameOf (dirent_name d)],
                   outDir := out1\<rparr>"
  have r: "categoryLoop ds ?st1 = Inr st'"
    using Cons.prems(1) w by (simp add: Let_def)
  have "n \<noteq> partFileNameOf (dirent_name d)"
    using Cons.prems(2) endsWith_partFileName by auto
  then have "map_of out1 n = map_of (outDir st) n"
    using writeFileSync_Inr [OF w] by (simp add: update_conv')
  then show ?case
    using Cons.IH [OF r Cons.prems(2)] by simp
qed

lemma categoryLoop_generatedFiles:
  "categoryLoop ds st = Inr st' \<Longrightarrow>
     generatedFiles st' = generatedFiles st @ map (\<lambda>d. partFileNameOf (dirent_name d)) ds"
proof (induction ds arbitrary: st)
  case Nil
  then show ?case by simp
next
  case (Cons d ds)
  from Cons.prems(1) obtain out1 where
    w: "writeFileSync (outDir st) (partFileNameOf (dirent_name d)) (partContentOf d) = Inr out1"
    by (auto simp: Let_def split: sum.splits)
  show ?case
    using Cons.prems w Cons.IH by (simp add: Let_def)
qed

lemma cleanupLoop_result:
  "cleanupLoop fs gen out = Inr out' \<Longrightarrow>
     map_of out' n = (if n \<in> set fs \<and> n \<notin> set gen \<and> endsWith n ''.dart'' then None else map_of out n)"
proof (induction fs arbitrary: out)
  case Nil
  then show ?case by simp
next
  case (Cons f fs)
  show ?case
  proof (cases "f \<notin> set gen \<and> endsWith f ''.dart''")
    case True
    then obtain out1 where u: "unlinkSync out f = Inr out1" and r: "cleanupLoop fs gen out1 = Inr out'"
      using Cons.prems by (auto split: sum.splits)
    have "map_of out1 = (map_of out)(f := None)"
      using unlinkSync_Inr [OF u] by (simp add: delete_conv')
    then show ?thesis
      using Cons.IH [OF r] True by auto
  next
    case False
    then have "cleanupLoop fs gen out = Inr out'" using Cons.prems by auto
    then show ?thesis using Cons.IH False by auto
  qed
qed

text \<open>
  Claim C7. When the generation pass completes, every name of the output directory that
  ends in \<^verbatim>\<open>.dart\<close> and is not among the names emitted by the pass is gone, and every
  name that does not end in \<^verbatim>\<open>.dart\<close> is as it was before the pass.
\<close>

theorem stale_files_deleted:
  assumes "generateAllAssetsClasses assetsItems outState = Inr out'"
  shows "(endsWith n ''.dart'' \<and> n \<notin> set (emittedFileNames assetsItems) \<longrightarrow> map_of out' n = None) \<and>
         (\<not> endsWith n ''.dart'' \<longrightarrow> map_of out' n = map_of (listingOf outState) n)"
proof -
  let ?st0 = "\<lparr>partsDecl = [], appAssetsBody = [], generatedFiles = [''assets_app.dart''],
               outDir = listingOf outState\<rparr>"
  obtain st out1 where
    c: "categoryLoop (filter isDirectory assetsItems) ?st0 = Inr st" and
    w: "writeFileSync (outDir st) ''assets_app.dart'' (mainContentOf st) = Inr out1" and
    k: "cleanupLoop (map fst out1) (generatedFiles st) out1 = Inr out'"
    using assms unfolding generateAllAssetsClasses_def Let_def listingOf_def
    by (auto split: sum.splits)
  have g: "generatedFiles st = emittedFileNames assetsItems"
    using categoryLoop_generatedFiles [OF c] by (simp add: emittedFileNames_def)
  have m: "map_of out1 = (map_of (outDir st))(''assets_app.dart'' \<mapsto> RegularFile (mainContentOf st))"
    using writeFileSync_Inr [OF w] by (simp add: update_conv')
  have r: "map_of out' n =
     (if n \<in> set (map fst out1) \<and> n \<notin> set (generatedFiles st) \<and> endsWith n ''.dart''
      then None else map_of out1 n)"
    using k by (rule cleanupLoop_result)
  have stale: "endsWith n ''.dart'' \<and> n \<notin> set (emittedFileNames assetsItems) \<longrightarrow> map_of out' n = None"
  proof (cases "n \<in> set (map fst out1)")
    case True
    then show ?thesis using r g by simp
  next
    case False
    then have "map_of out1 n = None" by (simp add: map_of_eq_None_iff)
    then show ?thesis using r by simp
  qed
  have other: "\<not> endsWith n ''.dart'' \<longrightarrow> map_of out' n = map_of (listingOf outState) n"
  proof
    assume e: "\<not> endsWith n ''.dart''"
    then have "n \<noteq> ''assets_app.dart''" using endsWith_main by auto
    then have "map_of out1 n = map_of (outDir st) n" using m by simp
    also have "\<dots> = map_of (listingOf outState) n"
      using categoryLoop_other_files [OF c e] by simp
    finally show "map_of out' n = map_of (listingOf outState) n" using r e by simp
  qed
  show ?thesis using stale other by blast
qed

theorem stale_files_deleted_witness:
  "\<not> isl (generateAllAssetsClasses [Dir ''images'' [File ''logo.png'']]
      (Some [(''old.dart'', RegularFile ''x''), (''notes.txt'', RegularFile ''keep''),
             (''image.dart'', RegularFile ''old'')])) \<and>
   map_of (projr (generateAllAssetsClasses [Dir ''images'' [File ''logo.png'']]
      (Some [(''old.dart'', RegularFile ''x''), (''notes.txt'', RegularFile ''keep''),
             (''image.dart'', RegularFile ''old'')]))) ''old.dart'' = None \<and>
   map_of (projr (generateAllAssetsClasses [Dir ''images'' [File ''logo.png'']]
      (Some [(''old.dart'', RegularFile ''x''), (''notes.txt'', RegularFile ''keep''),
             (''image.dart'', RegularFile ''old'')]))) ''notes.txt'' = Some (RegularFile ''keep'')"
proof -
  let ?items = "[Dir ''images'' [File ''logo.png'']]"
  let ?out = "Some [(''old.dart'', RegularFile ''x''), (''notes.txt'', RegularFile ''keep''),
             (''image.dart'', RegularFile ''old'')]"
  have h: "\<not> isl (generateAllAssetsClasses ?items ?out)" by code_simp
  then have e: "generateAllAssetsClasses ?items ?out = Inr (projr (generateAllAssetsClasses ?items ?out))"
    by simp
  have a: "endsWith ''old.dart'' ''.dart'' \<and> ''old.dart'' \<notin> set (emittedFileNames ?items)"
    by code_simp
  have b: "\<not> endsWith ''notes.txt'' ''.dart''" by code_simp
  have c: "map_of (listingOf ?out) ''notes.txt'' = Some (RegularFile ''keep'')" by code_simp
  show ?thesis
    using stale_files_deleted [OF e, of "''old.dart''"] stale_files_deleted [OF e, of "''notes.txt''"]
      h a b c by simp
qed

section \<open>The coordinator\<close>

lemma runFullSync_cases:
  "runFullSync ex hasFolder force w = w \<or>
   (\<not> isSyncing w \<and>
    passesStarted (runFullSync ex hasFolder force w) = passesStarted w + 1 \<and>
    ((isSyncing (runFullSync ex hasFolder force w) \<and>
      resetTimers (runFullSync ex hasFolder force w) = resetTimers w + 1) \<or>
     (\<not> isSyncing (runFullSync ex hasFolder force w) \<and>
      resetTimers (runFullSync ex hasFolder force w) = resetTimers w)))"
  unfolding runFullSync_def Let_def
  by (simp split: option.splits sum.splits prod.splits)

lemma runFullSync_guarded: "isSyncing w \<Longrightarrow> runFullSync ex hasFolder force w = w"
  by (simp add: runFullSync_def)

lemma guardConsistent_runFullSync:
  "guardConsistent w \<Longrightarrow> guardConsistent (runFullSync ex hasFolder force w)"
  using runFullSync_cases [of ex hasFolder force w]
  by (auto simp: guardConsistent_def)

lemma guardConsistent_step: "guardConsistent w \<Longrightarrow> guardConsistent (step ex e w)"
proof (cases e)
  case DebounceFires
  assume g: "guardConsistent w"
  show ?thesis
  proof (cases "syncTimer w")
    case None
    then show ?thesis using g DebounceFires by simp
  next
    case (Some hasFolder)
    have "guardConsistent (w\<lparr>syncTimer := None\<rparr>)"
      using g by (simp add: guardConsistent_def)
    then have "guardConsistent (debounceCallback ex hasFolder (w\<lparr>syncTimer := None\<rparr>))"
      unfolding debounceCallback_def by (simp add: guardConsistent_runFullSync)
    then show ?thesis using DebounceFires Some by simp
  qed
next
  case (ForceGenerate hasFolder)
  assume "guardConsistent w"
  then show ?thesis using ForceGenerate by (simp add: guardConsistent_runFullSync)
qed (auto simp: guardConsistent_def debouncedSync_def)

lemma guardConsistent_run: "guardConsistent w \<Longrightarrow> guardConsistent (run ex es w)"
  by (induction es arbitrary: w) (simp_all add: guardConsistent_step)

lemma guardConsistent_initial: "guardConsistent (initialWorld auto p)"
  by (simp add: guardConsistent_def initialWorld_def)

lemma step_pass_start:
  "passesStarted (step ex e w) \<noteq> passesStarted w \<Longrightarrow> \<not> isSyncing w"
proof (cases e)
  case DebounceFires
  assume a: "passesStarted (step ex e w) \<noteq> passesStarted w"
  show ?thesis
  proof (rule ccontr)
    assume "\<not> \<not> isSyncing w"
    then have "passesStarted (step ex e w) = passesStarted w"
      using DebounceFires by (simp add: debounceCallback_def split: option.splits)
    then show False using a by simp
  qed
next
  case (ForceGenerate hasFolder)
  assume a: "passesStarted (step ex e w) \<noteq> passesStarted w"
  show ?thesis
  proof (rule ccontr)
    assume "\<not> \<not> isSyncing w"
    then have "step ex e w = w"
      using ForceGenerate by (simp add: runFullSync_guarded)
    then show False using a by simp
  qed
qed (auto simp: debouncedSync_def split: if_splits)

lemma guarded_step:
  "isSyncing w \<Longrightarrow> e \<noteq> ResetFires \<Longrightarrow>
     isSyncing (step ex e w) \<and> passesStarted (step ex e w) = passesStarted w"
  by (cases e) (auto simp: debouncedSync_def debounceCallback_def runFullSync_guarded split: option.splits)

lemma guarded_run:
  "isSyncing w \<Longrightarrow> ResetFires \<notin> set es \<Longrightarrow>
     isSyncing (run ex es w) \<and> passesStarted (run ex es w) = passesStarted w"
proof (induction es arbitrary: w)
  case Nil
  then show ?case by simp
next
  case (Cons e es)
  have "isSyncing (step ex e w) \<and> passesStarted (step ex e w) = passesStarted w"
    using Cons.prems by (intro guarded_step) auto
  then show ?case using Cons.IH [of "step ex e w"] Cons.prems by simp
qed

lemma debounce_guarded: "isSyncing w \<Longrightarrow> step ex DebounceFires w = w\<lparr>syncTimer := None\<rparr>"
  by (simp add: debounceCallback_def split: option.splits)

text \<open>
  Claim C8. In every state reached from activation by any sequence of events and timer
  firings: a handler starts a pass only when the guard \<^verbatim>\<open>isSyncing\<close> is clear and no
  two-second callback of an earlier pass is still armed; while the guard is set exactly
  one such callback is armed, the debounce callback does nothing but consume its timer,
  and no sequence of events without that callback starts a pass or clears the guard.
\<close>

theorem passes_sequential:
  assumes "w = run ex es (initialWorld auto p)"
  shows "(passesStarted (step ex e w) \<noteq> passesStarted w \<longrightarrow>
            \<not> isSyncing w \<and> resetTimers w = 0) \<and>
         (isSyncing w \<longrightarrow> resetTimers w = 1 \<and> step ex DebounceFires w = w\<lparr>syncTimer := None\<rparr>) \<and>
         (isSyncing w \<and> ResetFires \<notin> set es' \<longrightarrow>
            isSyncing (run ex es' w) \<and> passesStarted (run ex es' w) = passesStarted w)"
proof -
  have g: "guardConsistent w"
    unfolding assms using guardConsistent_initial by (rule guardConsistent_run)
  show ?thesis
    using g step_pass_start [of ex e w] guarded_run [of w es' ex] debounce_guarded [of w ex]
    by (auto simp: guardConsistent_def)
qed


theorem passes_sequential_witness:
  "isSyncing (run (\<lambda>p. True) [FileEvent True, DebounceFires, FileEvent True]
      (initialWorld True \<lparr>assetsDir = Some [Dir ''images'' [File ''logo.png'']],
                           pubspec = None, outputDir = None\<rparr>)) \<and>
   passesStarted (run (\<lambda>p. True) [FileEvent True, DebounceFires, FileEvent True]
      (initialWorld True \<lparr>assetsDir = Some [Dir ''images'' [File ''logo.png'']],
                           pubspec = None, outputDir = None\<rparr>)) = 1 \<and>
   passesStarted (step (\<lambda>p. True) DebounceFires
     (run (\<lambda>p. True) [FileEvent True, DebounceFires, FileEvent True]
      (initialWorld True \<lparr>assetsDir = Some [Dir ''images'' [File ''logo.png'']],
                           pubspec = None, outputDir = None\<rparr>))) = 1"
proof -
  let ?w = "run (\<lambda>p. True) [FileEvent True, DebounceFires, FileEvent True]
      (initialWorld True \<lparr>assetsDir = Some [Dir ''images'' [File ''logo.png'']],
                           pubspec = None, outputDir = None\<rparr>)"
  have h: "isSyncing ?w" by code_simp
  have n: "passesStarted ?w = 1" by code_simp
  have "step (\<lambda>p. True) DebounceFires ?w = ?w\<lparr>syncTimer := None\<rparr>"
    using passes_sequential [OF refl, where ex = "\<lambda>p. True"
        and es = "[FileEvent True, DebounceFires, FileEvent True]" and auto = True
        and p = "\<lparr>assetsDir = Some [Dir ''images'' [File ''logo.png'']],
                           pubspec = None, outputDir = None\<rparr>"
        and e = DebounceFires and es' = "[]"] h
    by blast
  then show ?thesis using h n by simp
qed


section \<open>The string-valued properties of a category file\<close>

lemma generate_lines:
  "generateClassRecursively items rel cls =
     classHeaderLine cls @ CHR 0x0A # constructorLine cls @ CHR 0x0A # CHR 0x0A #
     concat (map (\<lambda>d. classPropertyLine cls (dirent_name d) @ [CHR 0x0A]) (dirsOf items)) @
     concat (map (\<lambda>f. stringPropertyLine rel (dirent_name f) @ [CHR 0x0A]) (filesOf items)) @
     CHR ''}'' # CHR 0x0A # CHR 0x0A #
     concat (map (\<lambda>d. generateClassRecursively (children d) (rel @ ''/'' @ dirent_name d)
                    (nestedClassNameOf cls (dirent_name d))) (dirsOf items))"
  by (subst generate_unfold)
     (simp add: classHeaderLine_def constructorLine_def classPropertyLine_def
        stringPropertyLine_def dirPropertyLine_def filePropertyLine_def Let_def)

lemma splitOn_line:
  "c \<notin> set l \<Longrightarrow> splitOn c (l @ c # rest) = l # splitOn c rest"
  by (simp add: splitOn_append splitOn_single)

lemma splitOn_block:
  "\<forall>x\<in>set xs. c \<notin> set (g x) \<Longrightarrow>
     splitOn c (concat (map (\<lambda>x. g x @ [c]) xs) @ rest) = map g xs @ splitOn c rest"
  by (induction xs) (simp_all add: splitOn_line)

lemma startsWith_Nil [simp]: "startsWith s [] = True"
  by (simp add: startsWith_def)

lemma startsWith_Cons_Cons [simp]:
  "startsWith (c # s) (d # p) = (c = d \<and> startsWith s p)"
  by (auto simp: startsWith_def)

lemma startsWith_Nil_Cons [simp]: "startsWith [] (d # p) = False"
  by (simp add: startsWith_def)

lemma isString_stringPropertyLine: "isStringPropertyLine (stringPropertyLine rel f)"
  by (simp add: isStringPropertyLine_def stringPropertyLine_def)

lemma isString_classPropertyLine:
  "\<not> isStringPropertyLine (classPropertyLine (CHR ''_'' # cls) d)"
  by (simp add: isStringPropertyLine_def classPropertyLine_def nestedClassNameOf_def)

lemma isString_headers:
  "\<not> isStringPropertyLine (classHeaderLine cls)"
  "\<not> isStringPropertyLine (constructorLine cls)"
  "\<not> isStringPropertyLine []"
  "\<not> isStringPropertyLine ''}''"
  by (simp_all add: isStringPropertyLine_def classHeaderLine_def constructorLine_def)

lemma alnum_no_lineFeed: "list_all isAlnum s \<Longrightarrow> CHR 0x0A \<notin> set s"
  by (auto simp: list_all_iff isAlnum_def isLowerAZ_def isUpperAZ_def isDigit_def)

lemma toUpperCaseChar_lineFeed: "toUpperCaseChar c = CHR 0x0A \<Longrightarrow> c = CHR 0x0A"
proof (cases "isLowerAZ c")
  case False
  assume "toUpperCaseChar c = CHR 0x0A"
  then show ?thesis using False by (simp add: toUpperCaseChar_def)
next
  case True
  assume "toUpperCaseChar c = CHR 0x0A"
  then have "char_of (of_char c - 32 :: nat) = CHR 0x0A"
    using True by (simp add: toUpperCaseChar_def)
  then have "(of_char (char_of (of_char c - 32 :: nat)) :: nat) = of_char (CHR 0x0A)"
    by simp
  then have m: "(of_char c - 32 :: nat) mod 256 = 10"
    by simp
  have "(of_char c - 32 :: nat) < 256"
    using True unfolding isLowerAZ_def by arith
  then have "(of_char c - 32 :: nat) mod 256 = of_char c - 32"
    by simp
  then have "(of_char c - 32 :: nat) = 10"
    using m by simp
  then show ?thesis
    using True unfolding isLowerAZ_def by arith
qed

lemma capitalize_lineFeed: "CHR 0x0A \<notin> set s \<Longrightarrow> CHR 0x0A \<notin> set (capitalize s)"
  by (cases s) (auto simp: capitalize_def dest: toUpperCaseChar_lineFeed [OF sym])

lemma forwardSlashes_lineFeed: "CHR 0x0A \<notin> set s \<Longrightarrow> CHR 0x0A \<notin> set (forwardSlashes s)"
  by (auto simp: forwardSlashes_def)

lemma formatPropertyName_lineFeed: "CHR 0x0A \<notin> set (formatPropertyName n)"
  using formatPropertyName_facts [of n] by (simp add: alnum_no_lineFeed)

lemma lineFeed_lines:
  "CHR 0x0A \<notin> set cls \<Longrightarrow> CHR 0x0A \<notin> set (classHeaderLine cls)"
  "CHR 0x0A \<notin> set cls \<Longrightarrow> CHR 0x0A \<notin> set (constructorLine cls)"
  "CHR 0x0A \<notin> set cls \<Longrightarrow> CHR 0x0A \<notin> set d \<Longrightarrow> CHR 0x0A \<notin> set (classPropertyLine cls d)"
  "CHR 0x0A \<notin> set rel \<Longrightarrow> CHR 0x0A \<notin> set f \<Longrightarrow> CHR 0x0A \<notin> set (stringPropertyLine rel f)"
  by (simp_all add: classHeaderLine_def constructorLine_def classPropertyLine_def
        stringPropertyLine_def nestedClassNameOf_def sq_def formatPropertyName_lineFeed
        capitalize_lineFeed forwardSlashes_lineFeed)

lemma lineFeedFree_name: "lineFeedFree e \<Longrightarrow> CHR 0x0A \<notin> set (dirent_name e)"
  by (cases e) simp_all

lemma lineFeedFree_children: "lineFeedFree e \<Longrightarrow> c \<in> set (children e) \<Longrightarrow> lineFeedFree c"
  by (cases e) simp_all

lemma reachedFiles_unfold:
  "reachedFiles items rel =
     map (\<lambda>f. (rel, dirent_name f)) (filesOf items) @
     concat (map (\<lambda>d. reachedFiles (children d) (rel @ ''/'' @ dirent_name d)) (dirsOf items))"
  by (subst reachedFiles.simps) simp

lemma string_lines_of_class:
  "CHR 0x0A \<notin> set rel \<Longrightarrow> CHR 0x0A \<notin> set cls \<Longrightarrow> \<forall>e\<in>set items. lineFeedFree e \<Longrightarrow>
     filter isStringPropertyLine
       (splitOn CHR 0x0A (generateClassRecursively items rel (CHR ''_'' # cls) @ rest))
     = map (\<lambda>(r, f). stringPropertyLine r f) (reachedFiles items rel) @
       filter isStringPropertyLine (splitOn CHR 0x0A rest)"
proof (induction items rel "CHR ''_'' # cls" arbitrary: cls rest rule: generate_induct)
  case (step items rel)
  let ?G = "\<lambda>d. generateClassRecursively (children d) (rel @ ''/'' @ dirent_name d)
                    (nestedClassNameOf (CHR ''_'' # cls) (dirent_name d))"
  let ?R = "\<lambda>d. reachedFiles (children d) (rel @ ''/'' @ dirent_name d)"
  have sub: "\<And>d. d \<in> set (dirsOf items) \<Longrightarrow> d \<in> set items"
    by (simp add: dirsOf_def)
  have fsub: "\<And>f. f \<in> set (filesOf items) \<Longrightarrow> f \<in> set items"
    by (simp add: filesOf_def)
  have nested: "filter isStringPropertyLine (splitOn CHR 0x0A (concat (map ?G ds) @ rest))
       = map (\<lambda>(r, f). stringPropertyLine r f) (concat (map ?R ds)) @
         filter isStringPropertyLine (splitOn CHR 0x0A rest)"
    if "set ds \<subseteq> set (dirsOf items)" for ds
    using that
  proof (induction ds)
    case Nil
    then show ?case by simp
  next
    case (Cons d ds)
    have m: "d \<in> set (dirsOf items)" using Cons.prems by simp
    have lf: "lineFeedFree d" using sub [OF m] step.prems(3) by blast
    have n1: "CHR 0x0A \<notin> set (rel @ ''/'' @ dirent_name d)"
      using step.prems(1) lineFeedFree_name [OF lf] by simp
    have n2: "CHR 0x0A \<notin> set (cls @ capitalize (dirent_name d))"
      using step.prems(2) lineFeedFree_name [OF lf] by (simp add: capitalize_lineFeed)
    have n3: "\<forall>e\<in>set (children d). lineFeedFree e"
      using lf lineFeedFree_children by blast
    have c: "nestedClassNameOf (CHR ''_'' # cls) (dirent_name d)
               = CHR ''_'' # (cls @ capitalize (dirent_name d))"
      by (simp add: nestedClassNameOf_def)
    have "filter isStringPropertyLine
            (splitOn CHR 0x0A (?G d @ (concat (map ?G ds) @ rest)))
          = map (\<lambda>(r, f). stringPropertyLine r f) (?R d) @
            filter isStringPropertyLine (splitOn CHR 0x0A (concat (map ?G ds) @ rest))"
      using step.hyps [OF m c n1 n2 n3] by (simp only: c)
    then show ?case
      using Cons.IH Cons.prems by simp
  qed
  have dl: "\<forall>d\<in>set (dirsOf items). CHR 0x0A \<notin> set (classPropertyLine (CHR ''_'' # cls) (dirent_name d))"
  proof
    fix d assume m: "d \<in> set (dirsOf items)"
    have "lineFeedFree d" using sub [OF m] step.prems(3) by blast
    then have "CHR 0x0A \<notin> set (dirent_name d)" by (rule lineFeedFree_name)
    moreover have "CHR 0x0A \<notin> set (CHR ''_'' # cls)" using step.prems(2) by simp
    ultimately show "CHR 0x0A \<notin> set (classPropertyLine (CHR ''_'' # cls) (dirent_name d))"
      by (simp only: lineFeed_lines(3) not_False_eq_True)
  qed
  have fl: "\<forall>f\<in>set (filesOf items). CHR 0x0A \<notin> set (stringPropertyLine rel (dirent_name f))"
  proof
    fix f assume m: "f \<in> set (filesOf items)"
    have "lineFeedFree f" using fsub [OF m] step.prems(3) by blast
    then have "CHR 0x0A \<notin> set (dirent_name f)" by (rule lineFeedFree_name)
    then show "CHR 0x0A \<notin> set (stringPropertyLine rel (dirent_name f))"
      using step.prems(1) by (simp only: lineFeed_lines(4) not_False_eq_True)
  qed
  have h1: "CHR 0x0A \<notin> set (classHeaderLine (CHR ''_'' # cls))"
    and h2: "CHR 0x0A \<notin> set (constructorLine (CHR ''_'' # cls))"
    using step.prems(2) by (simp_all add: lineFeed_lines)
  have "splitOn CHR 0x0A (generateClassRecursively items rel (CHR ''_'' # cls) @ rest)
      = classHeaderLine (CHR ''_'' # cls) # constructorLine (CHR ''_'' # cls) # [] #
        map (\<lambda>d. classPropertyLine (CHR ''_'' # cls) (dirent_name d)) (dirsOf items) @
        map (\<lambda>f. stringPropertyLine rel (dirent_name f)) (filesOf items) @
        ''}'' # [] # splitOn CHR 0x0A (concat (map ?G (dirsOf items)) @ rest)"
    by (subst generate_lines)
       (simp add: splitOn_line [OF h1] splitOn_line [OF h2] splitOn_block [OF dl] splitOn_block [OF fl])
  then show ?case
    using nested [of "dirsOf items"]
    by (subst reachedFiles_unfold)
       (simp add: isString_headers isString_stringPropertyLine isString_classPropertyLine
          filter_map o_def)
qed

lemma reachedLoop_concat:
  "reachedLoop ds rel =
     concat (map (\<lambda>d. reachedFiles (children d) (rel @ ''/'' @ dirent_name d)) ds)"
  by (induction ds) simp_all

lemma reachedFiles_code [code]:
  "reachedFiles items rel =
     map (\<lambda>f. (rel, dirent_name f)) (filesOf items) @ reachedLoop (dirsOf items) rel"
  by (simp add: reachedLoop_concat reachedFiles_unfold [of items])

lemma reachedFiles_file:
  "File f \<in> set items \<Longrightarrow> \<not> startsWith f ''.'' \<Longrightarrow> (rel, f) \<in> set (reachedFiles items rel)"
  by (subst reachedFiles_unfold) (force simp: filesOf_def)

lemma reachedFiles_nested:
  "Dir d cs \<in> set items \<Longrightarrow> \<not> isVariantName d \<Longrightarrow>
     set (reachedFiles cs (rel @ ''/'' @ d)) \<subseteq> set (reachedFiles items rel)"
  by (subst (2) reachedFiles_unfold) (force simp: dirsOf_def)

lemma string_lines_of_category:
  assumes "lineFeedFree (Dir c items)"
  shows "filter isStringPropertyLine (splitOn CHR 0x0A (partContentOf (Dir c items)))
         = map (\<lambda>(r, f). stringPropertyLine r f) (reachedFiles items c)"
proof -
  have n1: "CHR 0x0A \<notin> set c" and n3: "\<forall>e\<in>set items. lineFeedFree e"
    using assms by simp_all
  have "CHR 0x0A \<notin> set (baseNameOf c)"
    using n1 by (auto simp: baseNameOf_def dest: in_set_butlastD)
  then have n2: "CHR 0x0A \<notin> set (capitalize (baseNameOf c))"
    by (rule capitalize_lineFeed)
  let ?first = "''part of '' @ sq @ ''assets_app.dart'' @ sq @ '';''"
  have f1: "CHR 0x0A \<notin> set ?first" by (simp add: sq_def)
  have f2: "\<not> isStringPropertyLine ?first" by (simp add: isStringPropertyLine_def)
  have p: "partContentOf (Dir c items)
      = ?first @ CHR 0x0A # CHR 0x0A #
        (generateClassRecursively items c (CHR ''_'' # capitalize (baseNameOf c)) @ [])"
    by (simp add: partContentOf_def rootClassNameOf_def)
  have "splitOn CHR 0x0A (partContentOf (Dir c items))
      = ?first # [] #
        splitOn CHR 0x0A (generateClassRecursively items c (CHR ''_'' # capitalize (baseNameOf c)) @ [])"
    unfolding p by (simp only: splitOn_line [OF f1]) simp
  then show ?thesis
    using string_lines_of_class [OF n1 n2 n3, of "[]"] f2
    by (simp add: isString_headers)
qed

lemma categoryLoop_untouched:
  "categoryLoop ds st = Inr st' \<Longrightarrow> n \<notin> set (map (\<lambda>d. partFileNameOf (dirent_name d)) ds) \<Longrightarrow>
     map_of (outDir st') n = map_of (outDir st) n"
proof (induction ds arbitrary: st)
  case Nil
  then show ?case by simp
next
  case (Cons d ds)
  from Cons.prems(1) obtain out1 where
    w: "writeFileSync (outDir st) (partFileNameOf (dirent_name d)) (partContentOf d) = Inr out1"
    by (auto simp: Let_def split: sum.splits)
  let ?st1 = "st\<lparr>partsDecl := partsDecl st @ ''part '' @ sq @ partFileNameOf (dirent_name d) @ sq @ '';\<newline>'',
                   appAssetsBody := appAssetsBody st @ ''  static const '' @ formatPropertyName (dirent_name d) @ '' = '' @
                                      rootClassNameOf (dirent_name d) @ ''();\<newline>'',
                   generatedFiles := generatedFiles st @ [partFileNameOf (dirent_name d)],
                   outDir := out1\<rparr>"
  have r: "categoryLoop ds ?st1 = Inr st'"
    using Cons.prems(1) w by (simp add: Let_def)
  have "n \<noteq> partFileNameOf (dirent_name d)" using Cons.prems(2) by simp
  then have "map_of out1 n = map_of (outDir st) n"
    using writeFileSync_Inr [OF w] by (simp add: update_conv')
  moreover have "n \<notin> set (map (\<lambda>d. partFileNameOf (dirent_name d)) ds)"
    using Cons.prems(2) by simp
  ultimately show ?case
    using Cons.IH [OF r] by simp
qed

lemma categoryLoop_written:
  "categoryLoop ds st = Inr st' \<Longrightarrow> distinct (map (\<lambda>d. partFileNameOf (dirent_name d)) ds) \<Longrightarrow>
     d \<in> set ds \<Longrightarrow>
     map_of (outDir st') (partFileNameOf (dirent_name d)) = Some (RegularFile (partContentOf d))"
proof (induction ds arbitrary: st)
  case Nil
  then show ?case by simp
next
  case (Cons d0 ds)
  from Cons.prems(1) obtain out1 where
    w: "writeFileSync (outDir st) (partFileNameOf (dirent_name d0)) (partContentOf d0) = Inr out1"
    by (auto simp: Let_def split: sum.splits)
  let ?st1 = "st\<lparr>partsDecl := partsDecl st @ ''part '' @ sq @ partFileNameOf (dirent_name d0) @ sq @ '';\<newline>'',
                   appAssetsBody := appAssetsBody st @ ''  static const '' @ formatPropertyName (dirent_name d0) @ '' = '' @
                                      rootClassNameOf (dirent_name d0) @ ''();\<newline>'',
                   generatedFiles := generatedFiles st @ [partFileNameOf (dirent_name d0)],
                   outDir := out1\<rparr>"
  have r: "categoryLoop ds ?st1 = Inr st'"
    using Cons.prems(1) w by (simp add: Let_def)
  have dist: "distinct (map (\<lambda>d. partFileNameOf (dirent_name d)) ds)"
    and fresh: "partFileNameOf (dirent_name d0) \<notin> set (map (\<lambda>d. partFileNameOf (dirent_name d)) ds)"
    using Cons.prems(2) by simp_all
  show ?case
  proof (cases "d \<in> set ds")
    case True
    then show ?thesis using Cons.IH [OF r dist] by simp
  next
    case False
    then have e: "d = d0" using Cons.prems(3) by simp
    have "map_of out1 (partFileNameOf (dirent_name d0)) = Some (RegularFile (partContentOf d0))"
      using writeFileSync_Inr [OF w] by (simp add: update_conv')
    then show ?thesis
      using categoryLoop_untouched [OF r fresh] e by simp
  qed
qed

lemma generate_ignores_root_files:
  "generateAllAssetsClasses assetsItems outState
     = generateAllAssetsClasses (filter isDirectory assetsItems) outState"
  by (simp add: generateAllAssetsClasses_def)

text \<open>
  Claim C3, as amended. After a generation pass that completes, for every category
  directory (any directory listed in the asset root, whatever its name) whose names hold
  no line feed, when the emitted file names are pairwise distinct: the category's file
  in the output directory holds the category's class text, and the string-valued
  property lines of that text are exactly one line per reached file, in order, each with
  the value \<^verbatim>\<open>assets/<relativePath>/<filename>\<close> (backslashes of the relative path turned
  into slashes). The reached files are the regular files whose name does not start with
  a dot, in the category directory and below it through the directories that are not
  scale variants. The entries of the asset root that are not directories do not
  influence the pass.
\<close>

theorem string_properties_after_pass:
  assumes "generateAllAssetsClasses assetsItems outState = Inr out'"
    and "distinct (emittedFileNames assetsItems)"
    and "Dir c items \<in> set assetsItems"
    and "lineFeedFree (Dir c items)"
  shows "map_of out' (partFileNameOf c) = Some (RegularFile (partContentOf (Dir c items))) \<and>
         filter isStringPropertyLine (splitOn CHR 0x0A (partContentOf (Dir c items)))
           = map (\<lambda>(r, f). stringPropertyLine r f) (reachedFiles items c) \<and>
         generateAllAssetsClasses (filter isDirectory assetsItems) outState = Inr out'"
proof -
  let ?st0 = "\<lparr>partsDecl = [], appAssetsBody = [], generatedFiles = [''assets_app.dart''],
               outDir = listingOf outState\<rparr>"
  let ?n = "partFileNameOf c"
  obtain st out1 where
    cl: "categoryLoop (filter isDirectory assetsItems) ?st0 = Inr st" and
    w: "writeFileSync (outDir st) ''assets_app.dart'' (mainContentOf st) = Inr out1" and
    k: "cleanupLoop (map fst out1) (generatedFiles st) out1 = Inr out'"
    using assms(1) unfolding generateAllAssetsClasses_def Let_def listingOf_def
    by (auto split: sum.splits)
  have g: "generatedFiles st = emittedFileNames assetsItems"
    using categoryLoop_generatedFiles [OF cl] by (simp add: emittedFileNames_def)
  have m: "Dir c items \<in> set (filter isDirectory assetsItems)"
    using assms(3) by simp
  have dist: "distinct (map (\<lambda>d. partFileNameOf (dirent_name d)) (filter isDirectory assetsItems))"
    and notmain: "''assets_app.dart'' \<notin> set (map (\<lambda>d. partFileNameOf (dirent_name d)) (filter isDirectory assetsItems))"
    using assms(2) by (simp_all add: emittedFileNames_def)
  have "?n \<in> set (map (\<lambda>d. partFileNameOf (dirent_name d)) (filter isDirectory assetsItems))"
    using m by force
  then have ne: "?n \<noteq> ''assets_app.dart''" and ing: "?n \<in> set (generatedFiles st)"
    using notmain g by (auto simp: emittedFileNames_def)
  have "map_of (outDir st) ?n = Some (RegularFile (partContentOf (Dir c items)))"
    using categoryLoop_written [OF cl dist m] by simp
  then have "map_of out1 ?n = Some (RegularFile (partContentOf (Dir c items)))"
    using writeFileSync_Inr [OF w] ne by (simp add: update_conv')
  then have a: "map_of out' ?n = Some (RegularFile (partContentOf (Dir c items)))"
    using cleanupLoop_result [OF k, of ?n] ing by simp
  have b: "filter isStringPropertyLine (splitOn CHR 0x0A (partContentOf (Dir c items)))
           = map (\<lambda>(r, f). stringPropertyLine r f) (reachedFiles items c)"
    using assms(4) by (rule string_lines_of_category)
  have c: "generateAllAssetsClasses (filter isDirectory assetsItems) outState = Inr out'"
    using assms(1) generate_ignores_root_files [of assetsItems outState] by simp
  show ?thesis using a b c by simp
qed

theorem string_properties_after_pass_witness:
  "\<not> isl (generateAllAssetsClasses
      [Dir ''images'' [File ''logo.png'', File ''.gitkeep'',
         Dir ''icons'' [File ''user.svg''], Dir ''2.0x'' [File ''logo.png'']],
       File ''readme.txt''] None) \<and>
   map_of (projr (generateAllAssetsClasses
      [Dir ''images'' [File ''logo.png'', File ''.gitkeep'',
         Dir ''icons'' [File ''user.svg''], Dir ''2.0x'' [File ''logo.png'']],
       File ''readme.txt''] None)) ''image.dart''
     = Some (RegularFile (partContentOf (Dir ''images'' [File ''logo.png'', File ''.gitkeep'',
         Dir ''icons'' [File ''user.svg''], Dir ''2.0x'' [File ''logo.png'']]))) \<and>
   filter isStringPropertyLine (splitOn CHR 0x0A (partContentOf (Dir ''images''
       [File ''logo.png'', File ''.gitkeep'',
        Dir ''icons'' [File ''user.svg''], Dir ''2.0x'' [File ''logo.png'']])))
   = [''  final String logo = 'assets/images/logo.png';'',
      ''  final String user = 'assets/images/icons/user.svg'; // SVG File'']"
proof -
  let ?items = "[File ''logo.png'', File ''.gitkeep'',
       Dir ''icons'' [File ''user.svg''], Dir ''2.0x'' [File ''logo.png'']]"
  let ?root = "[Dir ''images'' ?items, File ''readme.txt'']"
  have h0: "\<not> isl (generateAllAssetsClasses ?root None)" by code_simp
  then have h1: "generateAllAssetsClasses ?root None = Inr (projr (generateAllAssetsClasses ?root None))"
    by simp
  have h2: "distinct (emittedFileNames ?root)" by code_simp
  have h3: "Dir ''images'' ?items \<in> set ?root" by simp
  have h4: "lineFeedFree (Dir ''images'' ?items)" by code_simp
  have n: "partFileNameOf ''images'' = ''image.dart''" by code_simp
  have r: "map (\<lambda>(r, f). stringPropertyLine r f) (reachedFiles ?items ''images'')
     = [''  final String logo = 'assets/images/logo.png';'',
        ''  final String user = 'assets/images/icons/user.svg'; // SVG File'']"
    by code_simp
  show ?thesis
    using string_properties_after_pass [OF h1 h2 h3 h4] h0
    unfolding n r by blast
qed

text \<open>
  Claim C3, as stated, fails: the file \<^verbatim>\<open>assets/images/.gitkeep\<close> is not inside a variant
  directory, and the pass emits no property for it.
\<close>

theorem dotfile_has_no_property_counterexample:
  "generateAllAssetsClasses [Dir ''images'' [File ''.gitkeep'']] None
   = Inr [(''image.dart'', RegularFile
            ''part of 'assets_app.dart';\<newline>\<newline>class _Image {\<newline>  const _Image();\<newline>\<newline>}\<newline>\<newline>''),
          (''assets_app.dart'', RegularFile
            ''part 'image.dart';\<newline>\<newline>class AssetsApp {\<newline>  AssetsApp._();\<newline>\<newline>  static const images = _Image();\<newline>}\<newline>'')]"
  by code_simp


section \<open>A second run of the manifest synchronizer\<close>

lemma dropWhile_snoc: "\<not> P c \<Longrightarrow> dropWhile P (xs @ [c]) = dropWhile P xs @ [c]"
  by (induction xs) simp_all

lemma trim_head:
  "dropWhile isWhiteSpace l = c # cs \<Longrightarrow> \<exists>ys. trim l = c # ys"
proof -
  assume a: "dropWhile isWhiteSpace l = c # cs"
  then have "\<not> isWhiteSpace c"
    by (metis hd_dropWhile list.sel(1) list.distinct(1))
  then have "dropWhile isWhiteSpace (rev cs @ [c]) = dropWhile isWhiteSpace (rev cs) @ [c]"
    by (rule dropWhile_snoc)
  then show ?thesis by (simp add: trim_def a)
qed

lemma trim_fixed:
  "\<not> isWhiteSpace a \<Longrightarrow> \<not> isWhiteSpace b \<Longrightarrow> trim (a # m @ [b]) = a # m @ [b]"
  by (simp add: trim_def)

lemma trim_indent: "trim (''    '' @ r) = trim r"
  by (simp add: trim_def isWhiteSpace_def)

lemma keepLine_trim: "trim l = trim l' \<Longrightarrow> keepLine ex l = keepLine ex l'"
  by (simp add: keepLine_def isPruneCandidate_def referencedPath_def)

lemma flutter_line_kept: "startsWith l ''flutter:'' \<Longrightarrow> keepLine ex l"
proof -
  assume "startsWith l ''flutter:''"
  then obtain cs where "l = CHR ''f'' # cs"
    by (cases l) simp_all
  then have "dropWhile isWhiteSpace l = CHR ''f'' # cs"
    by (simp add: isWhiteSpace_def)
  then obtain ys where "trim l = CHR ''f'' # ys"
    using trim_head by blast
  then show ?thesis
    by (simp add: keepLine_def isPruneCandidate_def)
qed

lemma assets_line_kept: "startsWith l ''  assets:'' \<Longrightarrow> keepLine ex l"
proof -
  assume "startsWith l ''  assets:''"
  then obtain cs where "l = CHR '' '' # CHR '' '' # CHR ''a'' # cs"
    by (cases l; cases "tl l"; cases "tl (tl l)") auto
  then have "dropWhile isWhiteSpace l = CHR ''a'' # cs"
    by (simp add: isWhiteSpace_def)
  then obtain ys where "trim l = CHR ''a'' # ys"
    using trim_head by blast
  then show ?thesis
    by (simp add: keepLine_def isPruneCandidate_def)
qed

lemma findIndexFrom_None:
  "(findIndexFrom P k ls = None) = (\<forall>i<length ls. \<not> P (ls ! i) (k + i))"
proof (induction ls arbitrary: k)
  case Nil
  then show ?case by simp
next
  case (Cons l ls)
  have "(\<forall>i<length (l # ls). \<not> P ((l # ls) ! i) (k + i))
      = (\<not> P l k \<and> (\<forall>i<length ls. \<not> P (ls ! i) (Suc k + i)))"
    by (auto simp: less_Suc_eq_0_disj)
  then show ?case using Cons [of "Suc k"] by simp
qed

lemma findIndexFrom_Some:
  "findIndexFrom P k ls = Some j \<Longrightarrow>
     k \<le> j \<and> j - k < length ls \<and> P (ls ! (j - k)) j \<and> (\<forall>i<j - k. \<not> P (ls ! i) (k + i))"
proof (induction ls arbitrary: k)
  case Nil
  then show ?case by simp
next
  case (Cons l ls)
  show ?case
  proof (cases "P l k")
    case True
    then show ?thesis using Cons.prems by simp
  next
    case False
    then have r: "findIndexFrom P (Suc k) ls = Some j" using Cons.prems by simp
    from Cons.IH [OF r] have ih: "Suc k \<le> j" "j - Suc k < length ls" "P (ls ! (j - Suc k)) j"
      "\<forall>i<j - Suc k. \<not> P (ls ! i) (Suc k + i)" by simp_all
    have e: "j - k = Suc (j - Suc k)" using ih(1) by simp
    show ?thesis
      using ih False unfolding e by (auto simp: less_Suc_eq_0_disj)
  qed
qed

lemma findIndex_None: "(findIndex P ls = None) = (\<forall>i<length ls. \<not> P (ls ! i) i)"
  by (simp add: findIndex_def findIndexFrom_None)

lemma findIndex_Some:
  "findIndex P ls = Some j \<Longrightarrow> j < length ls \<and> P (ls ! j) j \<and> (\<forall>i<j. \<not> P (ls ! i) i)"
  using findIndexFrom_Some [of P 0 ls j] by (simp add: findIndex_def)

lemma locateFlutter_spec:
  "locateFlutter ls = (ls1, fi) \<Longrightarrow> fi < length ls1 \<and> startsWith (ls1 ! fi) ''flutter:''"
proof (cases "findIndex (\<lambda>l i. startsWith l ''flutter:'') ls")
  case None
  assume "locateFlutter ls = (ls1, fi)"
  then have "ls1 = ls @ [[], ''flutter:'', ''  assets:'']" and "fi = Suc (length ls)"
    using None by (simp_all add: locateFlutter_def Let_def)
  then show ?thesis by (simp add: nth_append)
next
  case (Some i)
  assume "locateFlutter ls = (ls1, fi)"
  then have "ls1 = ls" and "fi = i"
    using Some by (simp_all add: locateFlutter_def)
  then show ?thesis using findIndex_Some [OF Some] by simp
qed

lemma locateAssets_spec:
  assumes "locateAssets ls1 fi = (ls2, ai)" and "fi < length ls1"
  shows "fi < ai \<and> ai < length ls2 \<and> startsWith (ls2 ! ai) ''  assets:'' \<and> ls2 ! fi = ls1 ! fi"
proof (cases "findIndex (\<lambda>l i. i > fi \<and> startsWith l ''  assets:'') ls1")
  case None
  then have "ls2 = spliceInsert ls1 (fi + 1) ''  assets:''" and "ai = fi + 1"
    using assms(1) by (auto simp: locateAssets_def)
  then show ?thesis
    using assms(2) by (simp add: spliceInsert_def nth_append)
next
  case (Some i)
  then have "ls2 = ls1" and "ai = i"
    using assms(1) by (simp_all add: locateAssets_def)
  then show ?thesis using findIndex_Some [OF Some] by simp
qed

lemma insertRequired_closed:
  "ai + 1 + k \<le> length ls \<Longrightarrow>
     insertRequired ex ai req ls k
       = take (ai + 1 + k) ls @ map (\<lambda>r. ''    '' @ r) (filter (\<lambda>r. r \<notin> set ex) req) @
         drop (ai + 1 + k) ls"
proof (induction req arbitrary: ls k)
  case Nil
  then show ?case by simp
next
  case (Cons r req)
  show ?case
  proof (cases "r \<in> set ex")
    case True
    then show ?thesis using Cons by simp
  next
    case False
    let ?ls = "spliceInsert ls (ai + 1 + k) (''    '' @ r)"
    have l: "ai + 1 + (k + 1) \<le> length ?ls"
      using Cons.prems by (simp add: spliceInsert_def)
    have t: "take (ai + 1 + (k + 1)) ?ls = take (ai + 1 + k) ls @ [''    '' @ r]"
      using Cons.prems by (simp add: spliceInsert_def)
    have d: "drop (ai + 1 + (k + 1)) ?ls = drop (ai + 1 + k) ls"
      using Cons.prems by (simp add: spliceInsert_def)
    show ?thesis
      using False Cons.IH [OF l] by (simp only: insertRequired.simps t d) simp
  qed
qed

lemma hasAssetsBlock_located:
  assumes "locateFlutter ls = (ls1, fi)" and "locateAssets ls1 fi = (ls2, ai)"
  shows "\<exists>A x B y C. ls2 = A @ x # B @ y # C \<and> length (A @ x # B) = ai \<and>
           startsWith x ''flutter:'' \<and> startsWith y ''  assets:''"
proof -
  have f: "fi < length ls1" "startsWith (ls1 ! fi) ''flutter:''"
    using locateFlutter_spec [OF assms(1)] by simp_all
  have a: "fi < ai" "ai < length ls2" "startsWith (ls2 ! ai) ''  assets:''" "ls2 ! fi = ls1 ! fi"
    using locateAssets_spec [OF assms(2) f(1)] by simp_all
  have e1: "ls2 = take ai ls2 @ ls2 ! ai # drop (Suc ai) ls2"
    using a(2) by (rule id_take_nth_drop)
  have fl: "fi < length (take ai ls2)" using a(1) a(2) by simp
  have e2: "take ai ls2 = take fi (take ai ls2) @ take ai ls2 ! fi # drop (Suc fi) (take ai ls2)"
    using fl by (rule id_take_nth_drop)
  have x: "take ai ls2 ! fi = ls2 ! fi" using a(1) by simp
  let ?A = "take fi (take ai ls2)" and ?B = "drop (Suc fi) (take ai ls2)" and ?C = "drop (Suc ai) ls2"
  have "ls2 = (?A @ ls2 ! fi # ?B) @ ls2 ! ai # ?C"
    using e1 e2 x by metis
  then have "ls2 = ?A @ ls2 ! fi # ?B @ ls2 ! ai # ?C" by simp
  moreover have "length (?A @ ls2 ! fi # ?B) = ai"
    using e2 x a(2) by (metis length_take min.absorb2 less_imp_le_nat)
  ultimately show ?thesis
    using f(2) a(3) a(4) by metis
qed

lemma hasAssetsBlock_filter:
  assumes "ls = A @ x # B @ y # C" and "startsWith x ''flutter:''" and "startsWith y ''  assets:''"
  shows "hasAssetsBlock (filter (keepLine ex) ls)"
proof -
  have "filter (keepLine ex) ls
      = filter (keepLine ex) A @ x # filter (keepLine ex) B @ y # filter (keepLine ex) C"
    using assms by (simp add: flutter_line_kept assets_line_kept)
  then show ?thesis
    unfolding hasAssetsBlock_def using assms(2,3) by blast
qed

lemma hasAssetsBlock_locate:
  assumes "hasAssetsBlock ls"
  shows "\<exists>fi ai. locateFlutter ls = (ls, fi) \<and> locateAssets ls fi = (ls, ai) \<and> ai < length ls"
proof -
  obtain A x B y C where d: "ls = A @ x # B @ y # C"
    and x: "startsWith x ''flutter:''" and y: "startsWith y ''  assets:''"
    using assms unfolding hasAssetsBlock_def by blast
  have xi: "ls ! length A = x" and xl: "length A < length ls"
    by (simp_all add: d)
  have "findIndex (\<lambda>l i. startsWith l ''flutter:'') ls \<noteq> None"
    using xi xl x by (auto simp: findIndex_None)
  then obtain fi where fi: "findIndex (\<lambda>l i. startsWith l ''flutter:'') ls = Some fi"
    by blast
  have "fi \<le> length A"
  proof (rule ccontr)
    assume "\<not> fi \<le> length A"
    then have "length A < fi" by simp
    then show False using findIndex_Some [OF fi] xi x by blast
  qed
  have yi: "ls ! (length A + 1 + length B) = y" and yl: "length A + 1 + length B < length ls"
    by (simp_all add: d nth_append)
  have "findIndex (\<lambda>l i. i > fi \<and> startsWith l ''  assets:'') ls \<noteq> None"
    using yi yl y \<open>fi \<le> length A\<close> by (auto simp: findIndex_None)
  then obtain ai where ai: "findIndex (\<lambda>l i. i > fi \<and> startsWith l ''  assets:'') ls = Some ai"
    by blast
  have "locateFlutter ls = (ls, fi)" using fi by (simp add: locateFlutter_def)
  moreover have "locateAssets ls fi = (ls, ai)" using ai by (simp add: locateAssets_def)
  moreover have "ai < length ls" using findIndex_Some [OF ai] by simp
  ultimately show ?thesis by blast
qed

lemma take_drop_block:
  "length P = n \<Longrightarrow> take (n + 1) (P @ y # C) = P @ [y] \<and> drop (n + 1) (P @ y # C) = C"
  by auto

lemma syncLines_closed:
  assumes "locateFlutter ls = (ls1, fi)" and "locateAssets ls1 fi = (ls2, ai)"
  shows "syncLines ex req ls
       = filter (keepLine ex)
           (take (ai + 1) ls2 @
            map (\<lambda>r. ''    '' @ r) (filter (\<lambda>r. r \<notin> set (map trim ls2)) req) @
            drop (ai + 1) ls2)"
proof -
  have "fi < length ls1" using locateFlutter_spec [OF assms(1)] by simp
  then have "ai < length ls2" using locateAssets_spec [OF assms(2)] by simp
  then have "ai + 1 + 0 \<le> length ls2" by simp
  then show ?thesis
    using insertRequired_closed [of ai 0 ls2 "map trim ls2" req]
    by (simp add: syncLines_def assms)
qed

lemma hasAssetsBlock_syncLines: "hasAssetsBlock (syncLines ex req ls)"
proof -
  obtain ls1 fi where a: "locateFlutter ls = (ls1, fi)" by (cases "locateFlutter ls")
  obtain ls2 ai where b: "locateAssets ls1 fi = (ls2, ai)" by (cases "locateAssets ls1 fi")
  let ?I = "map (\<lambda>r. ''    '' @ r) (filter (\<lambda>r. r \<notin> set (map trim ls2)) req)"
  obtain A x B y C where d: "ls2 = A @ x # B @ y # C" and len: "length (A @ x # B) = ai"
    and x: "startsWith x ''flutter:''" and y: "startsWith y ''  assets:''"
    using hasAssetsBlock_located [OF a b] by blast
  have "take (ai + 1) ls2 = A @ x # B @ [y]" and "drop (ai + 1) ls2 = C"
    using take_drop_block [OF len, of y C] unfolding d by simp_all
  then have "take (ai + 1) ls2 @ ?I @ drop (ai + 1) ls2 = A @ x # B @ y # (?I @ C)" by simp
  then have "hasAssetsBlock (filter (keepLine ex) (take (ai + 1) ls2 @ ?I @ drop (ai + 1) ls2))"
    using x y by (rule hasAssetsBlock_filter)
  then show ?thesis using syncLines_closed [OF a b] by simp
qed

lemma set_syncLines:
  "set (syncLines ex req ls) \<subseteq>
     set ls \<union> {[], ''flutter:'', ''  assets:''} \<union> (\<lambda>r. ''    '' @ r) ` set req"
proof -
  obtain ls1 fi where a: "locateFlutter ls = (ls1, fi)" by (cases "locateFlutter ls")
  obtain ls2 ai where b: "locateAssets ls1 fi = (ls2, ai)" by (cases "locateAssets ls1 fi")
  have s1: "set ls1 \<subseteq> set ls \<union> {[], ''flutter:'', ''  assets:''}"
    using a by (auto simp: locateFlutter_def Let_def split: option.splits)
  have s2: "set ls2 \<subseteq> set ls1 \<union> {''  assets:''}"
    using b by (auto simp: locateAssets_def set_spliceInsert split: option.splits)
  have "set (take (ai + 1) ls2) \<subseteq> set ls2" "set (drop (ai + 1) ls2) \<subseteq> set ls2"
    by (simp_all add: set_take_subset set_drop_subset)
  then show ?thesis
    using s1 s2 unfolding syncLines_closed [OF a b] by auto
qed

lemma syncLines_idempotent:
  assumes "\<forall>r\<in>set req. trim r = r"
  shows "syncLines ex req (syncLines ex req ls) = syncLines ex req ls"
proof -
  obtain ls1 fi where a: "locateFlutter ls = (ls1, fi)" by (cases "locateFlutter ls")
  obtain ls2 ai where b: "locateAssets ls1 fi = (ls2, ai)" by (cases "locateAssets ls1 fi")
  let ?I = "map (\<lambda>r. ''    '' @ r) (filter (\<lambda>r. r \<notin> set (map trim ls2)) req)"
  let ?ls3 = "take (ai + 1) ls2 @ ?I @ drop (ai + 1) ls2"
  let ?N = "filter (keepLine ex) ?ls3"
  have n: "syncLines ex req ls = ?N" using a b by (rule syncLines_closed)
  obtain A x B y C where d: "ls2 = A @ x # B @ y # C" and len: "length (A @ x # B) = ai"
    and x: "startsWith x ''flutter:''" and y: "startsWith y ''  assets:''"
    using hasAssetsBlock_located [OF a b] by blast
  have "take (ai + 1) ls2 = A @ x # B @ [y]" and "drop (ai + 1) ls2 = C"
    using take_drop_block [OF len, of y C] unfolding d by simp_all
  then have "?ls3 = A @ x # B @ y # (?I @ C)" by simp
  then have blk: "hasAssetsBlock ?N" using x y by (rule hasAssetsBlock_filter)
  obtain fi2 ai2 where a2: "locateFlutter ?N = (?N, fi2)" and b2: "locateAssets ?N fi2 = (?N, ai2)"
    using hasAssetsBlock_locate [OF blk] by blast
  let ?I2 = "map (\<lambda>r. ''    '' @ r) (filter (\<lambda>r. r \<notin> set (map trim ?N)) req)"
  have n2: "syncLines ex req ?N = filter (keepLine ex) (take (ai2 + 1) ?N @ ?I2 @ drop (ai2 + 1) ?N)"
    using a2 b2 by (rule syncLines_closed)
  have sub: "set ls2 \<subseteq> set ?ls3"
  proof -
    have "set ls2 = set (take (ai + 1) ls2 @ drop (ai + 1) ls2)" by simp
    then show ?thesis by (metis Un_upper1 Un_upper2 le_sup_iff set_append)
  qed
  have dead: "\<not> keepLine ex (''    '' @ r)" if r: "r \<in> set req" and fresh: "r \<notin> set (map trim ?N)" for r
  proof
    assume k: "keepLine ex (''    '' @ r)"
    have "trim (''    '' @ r) = trim r" by (rule trim_indent)
    then have t: "trim (''    '' @ r) = r" using assms r by simp
    show False
    proof (cases "r \<in> set (map trim ls2)")
      case True
      then obtain l where l: "l \<in> set ls2" "trim l = r" by auto
      then have "keepLine ex l" using k t keepLine_trim [of l "''    '' @ r" ex] by simp
      then have "l \<in> set ?N" using l(1) sub by auto
      then show False using fresh l(2) by force
    next
      case False
      then have "''    '' @ r \<in> set ?ls3" using r by simp
      then have "''    '' @ r \<in> set ?N" using k by simp
      then have "trim (''    '' @ r) \<in> trim ` set ?N" by (rule imageI)
      then have "trim (''    '' @ r) \<in> set (map trim ?N)" by (simp only: set_map)
      then show False using fresh t by simp
    qed
  qed
  have "filter (keepLine ex) ?I2 = []"
    using dead by (auto simp: filter_empty_conv)
  then have "filter (keepLine ex) (take (ai2 + 1) ?N @ ?I2 @ drop (ai2 + 1) ?N)
      = filter (keepLine ex) (take (ai2 + 1) ?N @ drop (ai2 + 1) ?N)"
    by (simp only: filter_append append_Nil)
  also have "\<dots> = filter (keepLine ex) ?N" by (simp only: append_take_drop_id)
  also have "\<dots> = ?N" by simp
  finally have c: "filter (keepLine ex) (take (ai2 + 1) ?N @ ?I2 @ drop (ai2 + 1) ?N) = ?N" .
  have "syncLines ex req ?N = ?N" using n2 c by (rule trans)
  then show ?thesis by (simp only: n)
qed

lemma syncPubspecContent_idempotent:
  assumes "\<forall>r\<in>set req. trim r = r \<and> CHR 0x0A \<notin> set r"
  shows "syncPubspecContent ex req (syncPubspecContent ex req content)
         = syncPubspecContent ex req content"
proof -
  let ?N = "syncLines ex req (splitOn CHR 0x0A content)"
  have ne: "?N \<noteq> []"
    using hasAssetsBlock_syncLines [of ex req "splitOn CHR 0x0A content"]
    unfolding hasAssetsBlock_def by auto
  have free: "\<forall>l\<in>set ?N. CHR 0x0A \<notin> set l"
  proof
    fix l assume "l \<in> set ?N"
    then have "l \<in> set (splitOn CHR 0x0A content) \<union> {[], ''flutter:'', ''  assets:''} \<union>
                 (\<lambda>r. ''    '' @ r) ` set req"
      using set_syncLines by blast
    then show "CHR 0x0A \<notin> set l"
      using assms by (auto dest: splitOn_free)
  qed
  have "splitOn CHR 0x0A (joinWith CHR 0x0A ?N) = concat (map (splitOn CHR 0x0A) ?N)"
    using ne by (rule splitOn_joinWith)
  also have "\<dots> = concat (map (\<lambda>l. [l]) ?N)"
    using free by (simp add: splitOn_single cong: map_cong)
  also have "\<dots> = ?N" by (induction ?N) simp_all
  finally have "splitOn CHR 0x0A (syncPubspecContent ex req content) = ?N"
    by (simp add: syncPubspecContent_def)
  then show ?thesis
    using assms syncLines_idempotent [of req ex "splitOn CHR 0x0A content"]
    by (simp add: syncPubspecContent_def)
qed

section \<open>A second run of the generation pass\<close>

lemma writeAll_simps [simp]:
  "writeAll out [] = out"
  "writeAll out ((n, v) # ws) = writeAll (AList.update n v out) ws"
  "writeAll out (ws @ ws') = writeAll (writeAll out ws) ws'"
  by (simp_all add: writeAll_def)

lemma categoryLoop_closed:
  "categoryLoop ds st = Inr st' \<Longrightarrow>
     st' = st\<lparr>partsDecl := partsDecl st @ declsOf ds,
               appAssetsBody := appAssetsBody st @ bodyOf ds,
               generatedFiles := generatedFiles st @ map (\<lambda>d. partFileNameOf (dirent_name d)) ds,
               outDir := writeAll (outDir st) (partFilesOf ds)\<rparr>"
proof (induction ds arbitrary: st)
  case Nil
  then show ?case by (simp add: declsOf_def bodyOf_def partFilesOf_def)
next
  case (Cons d ds)
  from Cons.prems obtain out1 where
    w: "writeFileSync (outDir st) (partFileNameOf (dirent_name d)) (partContentOf d) = Inr out1"
    by (auto simp: Let_def split: sum.splits)
  let ?st1 = "st\<lparr>partsDecl := partsDecl st @ ''part '' @ sq @ partFileNameOf (dirent_name d) @ sq @ '';\<newline>'',
                   appAssetsBody := appAssetsBody st @ ''  static const '' @ formatPropertyName (dirent_name d) @ '' = '' @
                                      rootClassNameOf (dirent_name d) @ ''();\<newline>'',
                   generatedFiles := generatedFiles st @ [partFileNameOf (dirent_name d)],
                   outDir := out1\<rparr>"
  have r: "categoryLoop ds ?st1 = Inr st'"
    using Cons.prems w by (simp add: Let_def)
  have o1: "out1 = AList.update (partFileNameOf (dirent_name d)) (RegularFile (partContentOf d)) (outDir st)"
    using w by (rule writeFileSync_Inr)
  show ?case
    unfolding Cons.IH [OF r] by (simp add: declsOf_def bodyOf_def partFilesOf_def o1)
qed

lemma map_of_writeAll: "map_of (writeAll al ws) = map_of al ++ map_of (rev ws)"
proof (induction ws arbitrary: al)
  case Nil
  then show ?case by simp
next
  case (Cons w ws)
  obtain n v where w: "w = (n, v)" by (cases w)
  have "map_of (writeAll al (w # ws)) = map_of (AList.update n v al) ++ map_of (rev ws)"
    using Cons [of "AList.update n v al"] by (simp add: w)
  also have "\<dots> = map_of al ++ map_of (rev (w # ws))"
    by (auto simp: w update_conv' map_add_def fun_eq_iff split: option.splits)
  finally show ?case .
qed

lemma categoryLoop_succeeds:
  "\<forall>n\<in>fst ` set (partFilesOf ds). map_of (outDir st) n \<noteq> Some Directory \<Longrightarrow>
     \<exists>st'. categoryLoop ds st = Inr st'"
proof (induction ds arbitrary: st)
  case Nil
  then show ?case by simp
next
  case (Cons d ds)
  let ?n = "partFileNameOf (dirent_name d)"
  have "map_of (outDir st) ?n \<noteq> Some Directory"
    using Cons.prems by (simp add: partFilesOf_def)
  then have w: "writeFileSync (outDir st) ?n (partContentOf d)
                  = Inr (AList.update ?n (RegularFile (partContentOf d)) (outDir st))"
    by (rule writeFileSync_ok)
  let ?st1 = "st\<lparr>partsDecl := partsDecl st @ ''part '' @ sq @ ?n @ sq @ '';\<newline>'',
                   appAssetsBody := appAssetsBody st @ ''  static const '' @ formatPropertyName (dirent_name d) @ '' = '' @
                                      rootClassNameOf (dirent_name d) @ ''();\<newline>'',
                   generatedFiles := generatedFiles st @ [?n],
                   outDir := AList.update ?n (RegularFile (partContentOf d)) (outDir st)\<rparr>"
  have "\<forall>n\<in>fst ` set (partFilesOf ds). map_of (outDir ?st1) n \<noteq> Some Directory"
    using Cons.prems by (auto simp: partFilesOf_def update_conv')
  then obtain st' where "categoryLoop ds ?st1 = Inr st'"
    using Cons.IH by blast
  then show ?case using w by (simp add: Let_def)
qed

lemma cleanupLoop_noop:
  "\<forall>f\<in>set fs. \<not> isStale generated f \<Longrightarrow> cleanupLoop fs generated out = Inr out"
  by (induction fs) (auto simp: isStale_def)

lemma cleanupLoop_filter:
  "cleanupLoop fs generated out = Inr out' \<Longrightarrow>
     out' = filter (\<lambda>p. \<not> (fst p \<in> set fs \<and> isStale generated (fst p))) out"
proof (induction fs arbitrary: out)
  case Nil
  then show ?case by simp
next
  case (Cons f fs)
  show ?case
  proof (cases "isStale generated f")
    case True
    then obtain out1 where u: "unlinkSync out f = Inr out1"
      and r: "cleanupLoop fs generated out1 = Inr out'"
      using Cons.prems by (auto simp: isStale_def split: sum.splits)
    have "out1 = filter (\<lambda>p. fst p \<noteq> f) out"
      using unlinkSync_Inr [OF u] by (auto simp: AList.delete_eq case_prod_unfold intro: filter_cong)
    then show ?thesis
      using Cons.IH [OF r] True by (auto intro: filter_cong)
  next
    case False
    then have "cleanupLoop fs generated out = Inr out'"
      using Cons.prems by (auto simp: isStale_def)
    then show ?thesis
      using Cons.IH False by (auto intro: filter_cong)
  qed
qed

lemma update_filter_commute:
  "P k \<Longrightarrow> AList.update k v (filter (\<lambda>p. P (fst p)) al) = filter (\<lambda>p. P (fst p)) (AList.update k v al)"
  by (induction al) auto

lemma writeAll_filter:
  "\<forall>n\<in>fst ` set ws. P n \<Longrightarrow>
     writeAll (filter (\<lambda>p. P (fst p)) al) ws = filter (\<lambda>p. P (fst p)) (writeAll al ws)"
proof (induction ws arbitrary: al)
  case Nil
  then show ?case by simp
next
  case (Cons w ws)
  obtain n v where w: "w = (n, v)" by (cases w)
  have "P n" using Cons.prems by (simp add: w)
  then show ?case
    using Cons.IH [of "AList.update n v al"] Cons.prems
    by (simp add: w update_filter_commute)
qed

lemma keys_writeAll_present:
  "\<forall>n\<in>fst ` set ws. n \<in> fst ` set al \<Longrightarrow> map fst (writeAll al ws) = map fst al"
proof (induction ws arbitrary: al)
  case Nil
  then show ?case by simp
next
  case (Cons w ws)
  obtain n v where w: "w = (n, v)" by (cases w)
  have k: "map fst (AList.update n v al) = map fst al"
    using Cons.prems by (simp add: w update_keys)
  then have "fst ` set (AList.update n v al) = fst ` set al"
    by (metis list.set_map)
  then show ?case
    using Cons.IH [of "AList.update n v al"] Cons.prems k by (simp add: w)
qed

lemma keys_of_writes: "fst ` set ws \<subseteq> fst ` set (writeAll al ws)"
proof -
  have "dom (map_of (writeAll al ws)) = dom (map_of al) \<union> dom (map_of (rev ws))"
    by (simp add: map_of_writeAll Un_commute)
  then show ?thesis
    by (simp add: dom_map_of_conv_image_fst)
qed

lemma distinct_writeAll:
  "distinct (map fst al) \<Longrightarrow> distinct (map fst (writeAll al ws))"
proof (induction ws arbitrary: al)
  case Nil
  then show ?case by simp
next
  case (Cons w ws)
  obtain n v where w: "w = (n, v)" by (cases w)
  show ?case
    using Cons.IH [of "AList.update n v al"] Cons.prems by (simp add: w distinct_update)
qed

lemma alist_eqI:
  "distinct (map fst xs) \<Longrightarrow> map fst xs = map fst ys \<Longrightarrow> map_of xs = map_of ys \<Longrightarrow> xs = ys"
proof (induction xs arbitrary: ys)
  case Nil
  then show ?case by simp
next
  case (Cons x xs)
  obtain y ys' where ys: "ys = y # ys'" using Cons.prems(2) by (cases ys) auto
  have k: "fst x = fst y" and ks: "map fst xs = map fst ys'"
    using Cons.prems(2) by (simp_all add: ys)
  have "map_of (x # xs) (fst x) = map_of (y # ys') (fst x)"
    using fun_cong [OF Cons.prems(3), of "fst x"] by (simp only: ys)
  then have v: "snd x = snd y" using k by simp
  have fresh: "fst x \<notin> fst ` set xs" "fst x \<notin> fst ` set ys'"
    using Cons.prems(1) ks by (simp_all, metis list.set_map)
  have "map_of xs = map_of ys'"
  proof
    fix a
    show "map_of xs a = map_of ys' a"
    proof (cases "a = fst x")
      case True
      have "map_of xs (fst x) = None" "map_of ys' (fst x) = None"
        using fresh by (simp_all only: map_of_eq_None_iff not_False_eq_True)
      then show ?thesis using True by simp
    next
      case False
      have "map_of (x # xs) a = map_of (y # ys') a"
        using fun_cong [OF Cons.prems(3), of a] by (simp only: ys)
      then show ?thesis using False k by (cases x; cases y) simp
    qed
  qed
  then have "xs = ys'"
    using Cons.IH Cons.prems(1) ks by simp
  then show ?case using k v by (simp add: ys prod_eq_iff)
qed

lemma writeAll_twice:
  assumes "distinct (map fst al)"
  shows "writeAll (writeAll al ws) ws = writeAll al ws"
proof (rule alist_eqI)
  show "distinct (map fst (writeAll (writeAll al ws) ws))"
    using assms by (intro distinct_writeAll)
  show "map fst (writeAll (writeAll al ws) ws) = map fst (writeAll al ws)"
    using keys_of_writes [of ws al] by (intro keys_writeAll_present) blast
  show "map_of (writeAll (writeAll al ws) ws) = map_of (writeAll al ws)"
    by (auto simp: map_of_writeAll map_add_def fun_eq_iff split: option.splits)
qed

lemma map_of_filter_fst:
  "map_of (filter (\<lambda>p. P (fst p)) al) n = (if P n then map_of al n else None)"
  by (induction al) auto

lemma partFilesOf_regular: "(n, v) \<in> set (partFilesOf ds) \<Longrightarrow> \<exists>c. v = RegularFile c"
  by (auto simp: partFilesOf_def)

lemma writesOf_regular: "(n, v) \<in> set (writesOf items) \<Longrightarrow> \<exists>c. v = RegularFile c"
  by (auto simp: writesOf_def dest: partFilesOf_regular)

lemma writesOf_names: "fst ` set (writesOf items) = set (emittedFileNames items)"
  by (auto simp: writesOf_def partFilesOf_def emittedFileNames_def image_iff)

lemma map_of_rev_regular:
  "map_of (rev ws) n = Some v \<Longrightarrow> \<forall>p\<in>set ws. \<exists>c. snd p = RegularFile c \<Longrightarrow> v \<noteq> Directory"
  by (fastforce dest!: map_of_SomeD)

lemma generate_closed:
  assumes "generateAllAssetsClasses items outState = Inr out'"
  shows "out' = filter (\<lambda>p. \<not> isStale (emittedFileNames items) (fst p))
                  (writeAll (listingOf outState) (writesOf items))"
proof -
  let ?ds = "filter isDirectory items"
  let ?st0 = "\<lparr>partsDecl = [], appAssetsBody = [], generatedFiles = [''assets_app.dart''],
               outDir = listingOf outState\<rparr>"
  obtain st out1 where
    c: "categoryLoop ?ds ?st0 = Inr st" and
    w: "writeFileSync (outDir st) ''assets_app.dart'' (mainContentOf st) = Inr out1" and
    k: "cleanupLoop (map fst out1) (generatedFiles st) out1 = Inr out'"
    using assms unfolding generateAllAssetsClasses_def Let_def listingOf_def
    by (auto split: sum.splits)
  have st: "st = ?st0\<lparr>partsDecl := partsDecl ?st0 @ declsOf ?ds,
               appAssetsBody := appAssetsBody ?st0 @ bodyOf ?ds,
               generatedFiles := generatedFiles ?st0 @ map (\<lambda>d. partFileNameOf (dirent_name d)) ?ds,
               outDir := writeAll (outDir ?st0) (partFilesOf ?ds)\<rparr>"
    using c by (rule categoryLoop_closed)
  have g: "generatedFiles st = emittedFileNames items"
    by (subst st) (simp add: emittedFileNames_def)
  have "out1 = AList.update ''assets_app.dart'' (RegularFile (mainContentOf st)) (outDir st)"
    using w by (rule writeFileSync_Inr)
  then have o1: "out1 = writeAll (listingOf outState) (writesOf items)"
    by (subst (asm) st, subst (asm) st) (simp add: writesOf_def mainContentOf_def)
  have "out' = filter (\<lambda>p. \<not> (fst p \<in> set (map fst out1) \<and> isStale (generatedFiles st) (fst p))) out1"
    using k by (rule cleanupLoop_filter)
  also have "\<dots> = filter (\<lambda>p. \<not> isStale (generatedFiles st) (fst p)) out1"
    by (rule filter_cong) auto
  finally show ?thesis by (simp only: g o1)
qed

lemma generate_runs:
  assumes "\<forall>n\<in>set (emittedFileNames items). map_of al n \<noteq> Some Directory"
    and "\<forall>p\<in>set (writeAll al (writesOf items)). \<not> isStale (emittedFileNames items) (fst p)"
  shows "generateAllAssetsClasses items (Some al) = Inr (writeAll al (writesOf items))"
proof -
  let ?ds = "filter isDirectory items"
  let ?st0 = "\<lparr>partsDecl = [], appAssetsBody = [], generatedFiles = [''assets_app.dart''],
               outDir = al\<rparr>"
  have "\<forall>n\<in>fst ` set (partFilesOf ?ds). map_of (outDir ?st0) n \<noteq> Some Directory"
    using assms(1) by (auto simp: partFilesOf_def emittedFileNames_def)
  then obtain st where c: "categoryLoop ?ds ?st0 = Inr st"
    using categoryLoop_succeeds by blast
  have st: "st = ?st0\<lparr>partsDecl := partsDecl ?st0 @ declsOf ?ds,
               appAssetsBody := appAssetsBody ?st0 @ bodyOf ?ds,
               generatedFiles := generatedFiles ?st0 @ map (\<lambda>d. partFileNameOf (dirent_name d)) ?ds,
               outDir := writeAll (outDir ?st0) (partFilesOf ?ds)\<rparr>"
    using c by (rule categoryLoop_closed)
  have g: "generatedFiles st = emittedFileNames items"
    by (subst st) (simp add: emittedFileNames_def)
  have od: "outDir st = writeAll al (partFilesOf ?ds)"
    by (subst st) simp
  have "map_of (outDir st) ''assets_app.dart'' \<noteq> Some Directory"
  proof (cases "map_of (rev (partFilesOf ?ds)) ''assets_app.dart''")
    case None
    then have "map_of (outDir st) ''assets_app.dart'' = map_of al ''assets_app.dart''"
      by (simp add: od map_of_writeAll map_add_def)
    then show ?thesis using assms(1) by (simp add: emittedFileNames_def)
  next
    case (Some v)
    then have "v \<noteq> Directory"
      by (rule map_of_rev_regular) (auto dest: partFilesOf_regular)
    moreover have "map_of (outDir st) ''assets_app.dart'' = Some v"
      using Some by (simp add: od map_of_writeAll map_add_def)
    ultimately show ?thesis by simp
  qed
  then have w: "writeFileSync (outDir st) ''assets_app.dart'' (mainContentOf st)
          = Inr (AList.update ''assets_app.dart'' (RegularFile (mainContentOf st)) (outDir st))"
    by (rule writeFileSync_ok)
  have o1: "AList.update ''assets_app.dart'' (RegularFile (mainContentOf st)) (outDir st)
          = writeAll al (writesOf items)"
    by (subst st, subst st) (simp add: writesOf_def mainContentOf_def)
  have "\<forall>f\<in>set (map fst (writeAll al (writesOf items))). \<not> isStale (generatedFiles st) f"
    using assms(2) g by auto
  then have k: "cleanupLoop (map fst (writeAll al (writesOf items))) (generatedFiles st)
                  (writeAll al (writesOf items)) = Inr (writeAll al (writesOf items))"
    by (rule cleanupLoop_noop)
  show ?thesis
    unfolding generateAllAssetsClasses_def Let_def
    by (simp add: c w o1 k)
qed

lemma generate_idempotent:
  assumes "generateAllAssetsClasses items outState = Inr out1"
    and "distinct (map fst (listingOf outState))"
  shows "generateAllAssetsClasses items (Some out1) = Inr out1"
proof -
  let ?W = "writesOf items" and ?gen = "emittedFileNames items"
  let ?ns = "\<lambda>n. \<not> isStale ?gen n"
  let ?B = "writeAll (listingOf outState) ?W"
  have o: "out1 = filter (\<lambda>p. ?ns (fst p)) ?B"
    using assms(1) by (rule generate_closed)
  have names: "\<forall>n\<in>fst ` set ?W. ?ns n"
    by (simp add: writesOf_names isStale_def)
  have "writeAll out1 ?W = filter (\<lambda>p. ?ns (fst p)) (writeAll ?B ?W)"
    unfolding o using names by (rule writeAll_filter)
  also have "\<dots> = out1"
    using assms(2) by (simp add: writeAll_twice o)
  finally have fixed: "writeAll out1 ?W = out1" .
  have a: "\<forall>n\<in>set ?gen. map_of out1 n \<noteq> Some Directory"
  proof
    fix n assume n: "n \<in> set ?gen"
    then have ns: "?ns n" by (simp add: isStale_def)
    have "n \<in> fst ` set (rev ?W)" using n by (simp add: writesOf_names)
    then obtain v where v: "map_of (rev ?W) n = Some v"
      by (metis domD dom_map_of_conv_image_fst)
    then have "v \<noteq> Directory"
      by (rule map_of_rev_regular) (auto dest: writesOf_regular)
    moreover have "map_of out1 n = Some v"
      using v ns map_of_filter_fst [of "\<lambda>n. \<not> isStale ?gen n" ?B n]
      by (simp add: o map_of_writeAll map_add_def)
    ultimately show "map_of out1 n \<noteq> Some Directory" by simp
  qed
  have b: "\<forall>p\<in>set (writeAll out1 ?W). \<not> isStale ?gen (fst p)"
    unfolding fixed by (subst o) simp
  show ?thesis
    using generate_runs [OF a b] by (simp only: fixed)
qed

section \<open>A second pass\<close>

lemma scanDirs_form:
  "r \<in> set (scanDirs items rel) \<Longrightarrow> \<exists>m. r = ''- assets/'' @ m @ ''/''"
proof (induction items rel arbitrary: r rule: scanDirs_induct)
  case (step items rel)
  from step.prems have
    "r = ''- assets/'' @ forwardSlashes rel @ ''/'' \<or>
     (\<exists>d\<in>set (dirsOf items). r \<in> set (scanDirs (children d) (rel @ ''/'' @ dirent_name d)))"
    by (subst (asm) scanDirs_unfold) auto
  then show ?case using step.IH by blast
qed

lemma required_trim: "r \<in> set (requiredAssetsOf items) \<Longrightarrow> trim r = r"
proof -
  assume "r \<in> set (requiredAssetsOf items)"
  then obtain m where "r = ''- assets/'' @ m @ ''/''"
    by (auto simp: requiredAssetsOf_def dest: scanDirs_form)
  then have "r = CHR ''-'' # ('' assets/'' @ m) @ [CHR ''/'']" by simp
  then show ?thesis
    by (simp only: trim_fixed [of "CHR ''-''" "CHR ''/''", unfolded isWhiteSpace_def, simplified])
qed

text \<open>
  Claim C4, as amended. When a pass completes, no required manifest entry holds a line
  feed, and path existence is the same for both passes, a second pass on the same asset
  tree completes and changes nothing: the manifest text and the output directory, file by
  file, are those left by the first pass. (The names of the output directory the first
  pass starts from are distinct, as in every directory.)
\<close>

theorem sync_pass_idempotent:
  assumes "syncPass existsRel assetsItems p = Inr p1"
    and "\<forall>r\<in>set (requiredAssetsOf assetsItems). CHR 0x0A \<notin> set r"
    and "distinct (map fst (listingOf (outputDir p)))"
  shows "syncPass existsRel assetsItems p1 = Inr p1"
proof -
  let ?req = "requiredAssetsOf assetsItems"
  let ?ps = "syncPubspecYaml existsRel assetsItems (pubspec p)"
  obtain out where g: "generateAllAssetsClasses assetsItems (outputDir p) = Inr out"
    and p1: "p1 = p\<lparr>pubspec := ?ps, outputDir := Some out\<rparr>"
    using assms(1) by (auto simp: syncPass_def Let_def split: sum.splits prod.splits)
  have req: "\<forall>r\<in>set ?req. trim r = r \<and> CHR 0x0A \<notin> set r"
    using assms(2) required_trim by blast
  have m: "syncPubspecYaml existsRel assetsItems ?ps = ?ps"
    by (cases "pubspec p") (simp_all add: syncPubspecYaml_def syncPubspecContent_idempotent [OF req])
  have g2: "generateAllAssetsClasses assetsItems (Some out) = Inr out"
    using g assms(3) by (rule generate_idempotent)
  show ?thesis
    by (simp add: syncPass_def p1 m g2)
qed

theorem sync_pass_idempotent_witness:
  "\<not> isl (syncPass (existsIn [Dir ''assets'' [Dir ''images'' [File ''logo.png'']], File ''pubspec.yaml''])
       [Dir ''images'' [File ''logo.png'']]
       \<lparr>assetsDir = Some [Dir ''images'' [File ''logo.png'']], pubspec = Some ''name: demo'',
        outputDir = None\<rparr>) \<and>
   syncPass (existsIn [Dir ''assets'' [Dir ''images'' [File ''logo.png'']], File ''pubspec.yaml''])
       [Dir ''images'' [File ''logo.png'']]
       (projr (syncPass (existsIn [Dir ''assets'' [Dir ''images'' [File ''logo.png'']], File ''pubspec.yaml''])
          [Dir ''images'' [File ''logo.png'']]
          \<lparr>assetsDir = Some [Dir ''images'' [File ''logo.png'']], pubspec = Some ''name: demo'',
           outputDir = None\<rparr>))
   = syncPass (existsIn [Dir ''assets'' [Dir ''images'' [File ''logo.png'']], File ''pubspec.yaml''])
       [Dir ''images'' [File ''logo.png'']]
       \<lparr>assetsDir = Some [Dir ''images'' [File ''logo.png'']], pubspec = Some ''name: demo'',
        outputDir = None\<rparr>"
proof -
  let ?ex = "existsIn [Dir ''assets'' [Dir ''images'' [File ''logo.png'']], File ''pubspec.yaml'']"
  let ?items = "[Dir ''images'' [File ''logo.png'']]"
  let ?p = "\<lparr>assetsDir = Some [Dir ''images'' [File ''logo.png'']], pubspec = Some ''name: demo'',
        outputDir = None\<rparr>"
  have h0: "\<not> isl (syncPass ?ex ?items ?p)" by code_simp
  then have h1: "syncPass ?ex ?items ?p = Inr (projr (syncPass ?ex ?items ?p))" by simp
  have h2: "\<forall>r\<in>set (requiredAssetsOf ?items). CHR 0x0A \<notin> set r" by code_simp
  have h3: "distinct (map fst (listingOf (outputDir ?p)))" by (simp add: listingOf_def)
  have "syncPass ?ex ?items (projr (syncPass ?ex ?items ?p)) = Inr (projr (syncPass ?ex ?items ?p))"
    using h1 h2 h3 by (rule sync_pass_idempotent)
  then show ?thesis using h0 by simp
qed

text \<open>
  Claim C4, as stated, fails: with a category directory whose name holds a line feed,
  the first pass writes the entry on two lines of the manifest, the second pass does not
  find it among the lines and writes it again.
\<close>

theorem line_feed_in_directory_name_counterexample:
  "\<not> isl (syncPass (existsIn [Dir ''assets'' [Dir ''x\<newline>y'' []], File ''pubspec.yaml''])
       [Dir ''x\<newline>y'' []]
       \<lparr>assetsDir = Some [Dir ''x\<newline>y'' []], pubspec = Some ''flutter:\<newline>  assets:'',
        outputDir = None\<rparr>) \<and>
   pubspec (projr (syncPass (existsIn [Dir ''assets'' [Dir ''x\<newline>y'' []], File ''pubspec.yaml''])
       [Dir ''x\<newline>y'' []]
       \<lparr>assetsDir = Some [Dir ''x\<newline>y'' []], pubspec = Some ''flutter:\<newline>  assets:'',
        outputDir = None\<rparr>))
     = Some ''flutter:\<newline>  assets:\<newline>    - assets/x\<newline>y/'' \<and>
   pubspec (projr (syncPass (existsIn [Dir ''assets'' [Dir ''x\<newline>y'' []], File ''pubspec.yaml''])
       [Dir ''x\<newline>y'' []]
       (projr (syncPass (existsIn [Dir ''assets'' [Dir ''x\<newline>y'' []], File ''pubspec.yaml''])
          [Dir ''x\<newline>y'' []]
          \<lparr>assetsDir = Some [Dir ''x\<newline>y'' []], pubspec = Some ''flutter:\<newline>  assets:'',
           outputDir = None\<rparr>))))
     = Some ''flutter:\<newline>  assets:\<newline>    - assets/x\<newline>y/\<newline>    - assets/x\<newline>y/''"
  by code_simp

end
